theory Spec2Isabelle
  imports Complex_Main
begin

section \<open>Exact enumeration for an Ising model: a shallow embedding of montecarlo.py\<close>

text \<open>
  Conventions of the embedding.
  \<^item> Python integers are \<open>int\<close>; lengths and loop counters that come from \<open>range\<close> are \<open>nat\<close>.
  \<^item> The numpy integer array \<open>config\<close> is an \<open>int list\<close>. Its cells hold 64-bit integers in
    the source; every operation below stores only 0 and 1 or copies a caller's value, and
    no arithmetic on a cell other than \<open>2 * bit - 1\<close> is done, so the cells are unbounded here.
  \<^item> Python floats are \<open>real\<close> in the energies and the thermal sums: sums, products,
    quotients and \<open>exp\<close> are the exact real operations; rounding, overflow to infinity and
    underflow of IEEE doubles are outside the model there.
  \<^item> The one double that decides an integer computation, \<open>math.log2(dec)\<close> in
    \<open>set_int_config\<close>, is modelled with its rounding: see \<open>log2_ge\<close>.
  \<^item> An exception is a value \<open>Inl e\<close> of a sum type; the receiver of a method that raised is
    whatever it was before the call unless said otherwise.
\<close>

subsection \<open>Exceptions\<close>

datatype error =
    IndexError    \<comment> \<open>index outside a list or an array\<close>
  | ValueError    \<comment> \<open>\<open>math.log2\<close> of a negative number, \<open>np.zeros\<close> of a negative size, \<open>np.dot\<close> of unequal lengths\<close>
  | TypeError     \<comment> \<open>\<open>math.log2(None)\<close>\<close>
  | NameError     \<comment> \<open>the call of the undefined name \<open>error\<close> in \<open>IsingHamiltonian.energy\<close>\<close>

subsection \<open>Indexing\<close>

text \<open>
  \<open>a[i]\<close> on a Python list or a one-dimensional numpy array: indices from \<open>-len\<close> up to
  \<open>len - 1\<close> are accepted, the negative ones counting from the end; any other index raises.
\<close>

definition getitem :: "'a list \<Rightarrow> int \<Rightarrow> error + 'a" where
  "getitem xs i =
     (if 0 \<le> i \<and> i < int (length xs) then Inr (xs ! nat i)
      else if - int (length xs) \<le> i \<and> i < 0 then Inr (xs ! nat (int (length xs) + i))
      else Inl IndexError)"

definition setitem :: "'a list \<Rightarrow> int \<Rightarrow> 'a \<Rightarrow> error + 'a list" where
  "setitem xs i v =
     (if 0 \<le> i \<and> i < int (length xs) then Inr (xs[nat i := v])
      else if - int (length xs) \<le> i \<and> i < 0 then Inr (xs[nat (int (length xs) + i) := v])
      else Inl IndexError)"

subsection \<open>BitString\<close>

record BitString =
  N :: nat
  config :: "int list"

text \<open>
  The constructor: \<open>np.zeros(N, dtype=int)\<close> raises for a negative size, so every object
  it returns has a non-negative \<open>N\<close> and \<open>N\<close> zero cells.
\<close>

definition BitString_init :: "int \<Rightarrow> error + BitString" where
  "BitString_init n =
     (if n < 0 then Inl ValueError
      else Inr \<lparr>N = nat n, config = replicate (nat n) 0\<rparr>)"

text \<open>\<open>__len__\<close>\<close>

definition len_bs :: "BitString \<Rightarrow> nat" where
  "len_bs b = N b"

text \<open>\<open>__eq__\<close>: the loop runs over \<open>range(self.N)\<close> and reads both arrays at \<open>x\<close>.\<close>

function eq_loop :: "BitString \<Rightarrow> BitString \<Rightarrow> nat \<Rightarrow> error + bool" where
  "eq_loop a b x =
     (if x < N a then
        (case getitem (config a) (int x) of
           Inl e \<Rightarrow> Inl e
         | Inr u \<Rightarrow>
             (case getitem (config b) (int x) of
                Inl e \<Rightarrow> Inl e
              | Inr v \<Rightarrow> if u \<noteq> v then Inr False else eq_loop a b (Suc x)))
      else Inr True)"
  by pat_completeness auto
termination
  by (relation "measure (\<lambda>(a, b, x). N a - x)") auto

declare eq_loop.simps [simp del]

definition eq_bs :: "BitString \<Rightarrow> BitString \<Rightarrow> error + bool" where
  "eq_bs a b = eq_loop a b 0"

text \<open>\<open>on\<close> and \<open>off\<close>: one pass over the cells, counting those equal to 1, resp. 0.\<close>

fun on_loop :: "int list \<Rightarrow> nat \<Rightarrow> nat" where
  "on_loop [] ones = ones"
| "on_loop (x # xs) ones = (if x = 1 then on_loop xs (ones + 1) else on_loop xs ones)"

definition on :: "BitString \<Rightarrow> nat" where
  "on b = on_loop (config b) 0"

fun off_loop :: "int list \<Rightarrow> nat \<Rightarrow> nat" where
  "off_loop [] zeroes = zeroes"
| "off_loop (x # xs) zeroes = (if x = 0 then off_loop xs (zeroes + 1) else off_loop xs zeroes)"

definition off :: "BitString \<Rightarrow> nat" where
  "off b = off_loop (config b) 0"

text \<open>
  \<open>flip_site\<close>: reads \<open>config[i]\<close>, then stores 0 if it was 1 and 1 otherwise. The index is
  the caller's, so numpy's negative indices apply.
\<close>

definition flip_site :: "BitString \<Rightarrow> int \<Rightarrow> error + BitString" where
  "flip_site b i =
     (case getitem (config b) i of
        Inl e \<Rightarrow> Inl e
      | Inr v \<Rightarrow>
          (case setitem (config b) i (if v = 1 then 0 else 1) of
             Inl e \<Rightarrow> Inl e
           | Inr c \<Rightarrow> Inr (b\<lparr>config := c\<rparr>)))"

text \<open>\<open>int\<close>: the value of the bits, cell 0 weighing \<open>2 ** (N - 1)\<close>.\<close>

function int_loop :: "BitString \<Rightarrow> nat \<Rightarrow> int \<Rightarrow> error + int" where
  "int_loop b x dec =
     (if x < N b then
        (case getitem (config b) (int x) of
           Inl e \<Rightarrow> Inl e
         | Inr v \<Rightarrow> if v = 1 then int_loop b (Suc x) (dec + 2 ^ (N b - x - 1))
                    else int_loop b (Suc x) dec)
      else Inr dec)"
  by pat_completeness auto
termination
  by (relation "measure (\<lambda>(b, x, dec). N b - x)") auto

declare int_loop.simps [simp del]

definition int_bs :: "BitString \<Rightarrow> error + int" where
  "int_bs b = int_loop b 0 0"

text \<open>
  \<open>set_config\<close>: copies \<open>s[x]\<close> into cell \<open>x\<close> for \<open>x\<close> in \<open>range(self.N)\<close>. When a read or a
  store raises, the cells copied so far stay copied in the source; the model returns the
  exception only.
\<close>

function set_config_loop :: "nat \<Rightarrow> int list \<Rightarrow> int list \<Rightarrow> nat \<Rightarrow> error + int list" where
  "set_config_loop n c s x =
     (if x < n then
        (case getitem s (int x) of
           Inl e \<Rightarrow> Inl e
         | Inr v \<Rightarrow>
             (case setitem c (int x) v of
                Inl e \<Rightarrow> Inl e
              | Inr c' \<Rightarrow> set_config_loop n c' s (Suc x)))
      else Inr c)"
  by pat_completeness auto
termination
  by (relation "measure (\<lambda>(n, c, s, x). n - x)") auto

declare set_config_loop.simps [simp del]

definition set_config :: "BitString \<Rightarrow> int list \<Rightarrow> error + BitString" where
  "set_config b s =
     (case set_config_loop (N b) (config b) s 0 of
        Inl e \<Rightarrow> Inl e
      | Inr c \<Rightarrow> Inr (b\<lparr>config := c\<rparr>))"

text \<open>
  \<open>set_int_config\<close>. Its test \<open>math.log2(dec) >= k\<close> compares a double with an integer
  \<open>k \<ge> 0\<close>.
  \<^item> \<open>math.log2\<close> raises ValueError for an argument that is not positive.
  \<^item> For \<open>dec \<ge> 2 ^ k\<close> the double is at least \<open>k\<close>, as the exact logarithm is: the
    logarithm of a power of two is a double, and neither the conversion of \<open>dec\<close> to a
    double nor the rounding of the logarithm goes below it.
  \<^item> For \<open>0 < dec < 2 ^ k\<close> the exact logarithm is below \<open>k\<close>, but the double nearest to
    it can be \<open>k\<close> itself. Whether it is depends on the library's rounding, which is the
    parameter \<open>up\<close> of the model: \<open>up dec k\<close> says that \<open>math.log2(dec)\<close> comes out as at
    least \<open>k\<close> although \<open>dec < 2 ^ k\<close>.
  Every function that decodes an integer takes \<open>up\<close> as its first argument.
\<close>

type_synonym rounding = "int \<Rightarrow> nat \<Rightarrow> bool"

definition log2_ge :: "rounding \<Rightarrow> int \<Rightarrow> nat \<Rightarrow> error + bool" where
  "log2_ge up dec k = (if dec \<le> 0 then Inl ValueError else Inr (2 ^ k \<le> dec \<or> up dec k))"

text \<open>
  The rounding of IEEE 754 doubles, for the evaluations at concrete inputs. CPython
  converts \<open>dec\<close> to the nearest double \<open>x\<close> (53 significant bits, ties to even) and
  takes the double nearest to the logarithm of \<open>x\<close>. For \<open>2 ^ e < k \<le> 2 ^ (e + 1)\<close> the
  doubles just below \<open>k\<close> are \<open>2 ^ (e - 52)\<close> apart, so the logarithm of an \<open>x < 2 ^ k\<close> is
  rounded to \<open>k\<close> when it is within half such a step of \<open>k\<close>, that is when
  \<open>2 ^ k - x\<close> is at most \<open>2 ^ (k - 53)\<close> times \<open>2 ^ e * ln 2\<close>.
  \<^item> \<open>ln2_steps k\<close> is \<open>2 ^ e * ln 2\<close> rounded down (\<open>ln 2\<close> to 52 decimal places); \<open>e + 1\<close>
    is the number of binary digits of \<open>k - 1\<close>.
  \<^item> Up to \<open>k = 53\<close> every integer below \<open>2 ^ k\<close> is a double, and the values rounded up are
    those with \<open>2 ^ k - dec \<le> ln2_steps k div 2 ^ (53 - k)\<close>: none for \<open>k \<le> 48\<close>, only
    \<open>2 ^ 49 - 1\<close> for \<open>k = 49\<close>.
  \<^item> From \<open>k = 54\<close> on the doubles below \<open>2 ^ k\<close> are \<open>2 ^ (k - 53)\<close> apart; the integers
    converted to one of the last \<open>ln2_steps k\<close> of them, or to \<open>2 ^ k\<close> itself, are rounded
    up, the tie of the conversion going to the even double.
\<close>

fun bit_length :: "nat \<Rightarrow> nat" where
  "bit_length n = (if n = 0 then 0 else Suc (bit_length (n div 2)))"

declare bit_length.simps [simp del]

definition ln2_steps :: "nat \<Rightarrow> int" where
  "ln2_steps k =
     (if k \<le> 1 then 0
      else (2 ^ (bit_length (k - 1) - 1) * 6931471805599453094172321214581765680755001343602552)
             div 10 ^ 52)"

definition ieee_zone :: "nat \<Rightarrow> int" where
  "ieee_zone k =
     (let u = ln2_steps k in
      if k \<le> 53 then u div 2 ^ (53 - k)
      else (2 * u + 1) * 2 ^ (k - 54) - (if odd u then 1 else 0))"

definition ieee_up :: rounding where
  "ieee_up dec k = (0 < 2 ^ k - dec \<and> 2 ^ k - dec \<le> ieee_zone k)"

function set_int_config_loop ::
  "rounding \<Rightarrow> nat \<Rightarrow> int list \<Rightarrow> nat \<Rightarrow> int \<Rightarrow> error + int list" where
  "set_int_config_loop up n c x dec =
     (if x < n then
        (if dec = 0 then Inr c
         else
           (case log2_ge up dec (n - x - 1) of
              Inl e \<Rightarrow> Inl e
            | Inr True \<Rightarrow>
                (case setitem c (int x) 1 of
                   Inl e \<Rightarrow> Inl e
                 | Inr c' \<Rightarrow> set_int_config_loop up n c' (Suc x) (dec - 2 ^ (n - x - 1)))
            | Inr False \<Rightarrow> set_int_config_loop up n c (Suc x) dec))
      else Inr c)"
  by pat_completeness auto
termination
  by (relation "measure (\<lambda>(up, n, c, x, dec). n - x)") auto

declare set_int_config_loop.simps [simp del]

definition set_int_config :: "rounding \<Rightarrow> BitString \<Rightarrow> int \<Rightarrow> error + BitString" where
  "set_int_config up b dec =
     (case BitString_init (int (N b)) of
        Inl e \<Rightarrow> Inl e
      | Inr other_bs \<Rightarrow>
          (case set_int_config_loop up (N other_bs) (config other_bs) 0 dec of
             Inl e \<Rightarrow> Inl e
           | Inr c \<Rightarrow> Inr (b\<lparr>config := c\<rparr>)))"

text \<open>
  \<open>set_int_config(None)\<close>, as \<open>get_lowest_energy_config\<close> calls it when no index was
  recorded: \<open>None == 0\<close> is false, so the loop does not break, and \<open>math.log2(None)\<close>
  raises TypeError in the first iteration. With \<open>N = 0\<close> the loop body never runs.
\<close>

definition set_int_config_None :: "BitString \<Rightarrow> error + BitString" where
  "set_int_config_None b =
     (case BitString_init (int (N b)) of
        Inl e \<Rightarrow> Inl e
      | Inr other_bs \<Rightarrow>
          if 0 < N other_bs then Inl TypeError else Inr (b\<lparr>config := config other_bs\<rparr>))"

text \<open>
  The configurations a caller can obtain through the public operations: construction,
  a flip, \<open>set_config\<close> with a 0/1 sequence of length \<open>N\<close>, \<open>set_int_config\<close> with a
  value in range.
\<close>

inductive reachable :: "rounding \<Rightarrow> BitString \<Rightarrow> bool" for up :: rounding where
  construct: "BitString_init n = Inr b \<Longrightarrow> reachable up b"
| flip: "reachable up b \<Longrightarrow> flip_site b i = Inr b' \<Longrightarrow> reachable up b'"
| set_bits: "reachable up b \<Longrightarrow> length s = N b \<Longrightarrow> list_all (\<lambda>v. v = 0 \<or> v = 1) s \<Longrightarrow>
             set_config b s = Inr b' \<Longrightarrow> reachable up b'"
| from_integer: "reachable up b \<Longrightarrow> 0 \<le> d \<Longrightarrow> d < 2 ^ N b \<Longrightarrow>
             set_int_config up b d = Inr b' \<Longrightarrow> reachable up b'"

subsection \<open>IsingHamiltonian\<close>

text \<open>
  The field \<open>N\<close> of the source is \<open>N_ham\<close> here (\<open>N\<close> is the field of \<open>BitString\<close>). A
  coupling is a pair of a neighbour index and a strength.
\<close>

record IsingHamiltonian =
  J :: "(int \<times> real) list list"
  mu :: "real list"
  nodes :: "int list list"
  js :: "real list list"
  N_ham :: nat

definition IsingHamiltonian_init :: "(int \<times> real) list list \<Rightarrow> real list \<Rightarrow> IsingHamiltonian" where
  "IsingHamiltonian_init Jc m =
     \<lparr>J = Jc, mu = m, nodes = map (map fst) Jc, js = map (map snd) Jc, N_ham = length Jc\<rparr>"

text \<open>
  \<open>energy\<close>. The inner loop runs over the couplings of site \<open>i\<close>; a coupling whose
  neighbour index is below \<open>i\<close> is skipped before any cell is read.
\<close>

fun energy_pairs :: "int list \<Rightarrow> nat \<Rightarrow> (int \<times> real) list \<Rightarrow> real \<Rightarrow> error + real" where
  "energy_pairs c i [] e = Inr e"
| "energy_pairs c i (j # row) e =
     (if fst j < int i then energy_pairs c i row e
      else
        (case getitem c (int i) of
           Inl err \<Rightarrow> Inl err
         | Inr u \<Rightarrow>
             (case getitem c (fst j) of
                Inl err \<Rightarrow> Inl err
              | Inr v \<Rightarrow> if u = v then energy_pairs c i row (e + snd j)
                         else energy_pairs c i row (e - snd j))))"

function energy_sites :: "IsingHamiltonian \<Rightarrow> BitString \<Rightarrow> nat \<Rightarrow> real \<Rightarrow> error + real" where
  "energy_sites h c i e =
     (if i < N c then
        (case getitem (J h) (int i) of
           Inl err \<Rightarrow> Inl err
         | Inr row \<Rightarrow>
             (case energy_pairs (config c) i row e of
                Inl err \<Rightarrow> Inl err
              | Inr e' \<Rightarrow> energy_sites h c (Suc i) e'))
      else Inr e)"
  by pat_completeness auto
termination
  by (relation "measure (\<lambda>(h, c, i, e). N c - i)") auto

declare energy_sites.simps [simp del]

text \<open>\<open>np.dot\<close> of two one-dimensional arrays: unequal lengths raise.\<close>

definition np_dot :: "real list \<Rightarrow> real list \<Rightarrow> error + real" where
  "np_dot xs ys =
     (if length xs \<noteq> length ys then Inl ValueError
      else Inr (sum_list (map (\<lambda>(x, y). x * y) (zip xs ys))))"

text \<open>\<open>2 * config - 1\<close>, the spins as an array.\<close>

definition spins :: "int list \<Rightarrow> int list" where
  "spins c = map (\<lambda>b. 2 * b - 1) c"

text \<open>
  The dimension test calls \<open>error("wrong dimension")\<close>; no \<open>error\<close> is defined or imported
  in the module, so the call raises NameError and \<open>energy\<close> ends there.
\<close>

definition energy :: "IsingHamiltonian \<Rightarrow> BitString \<Rightarrow> error + real" where
  "energy h c =
     (if length (config c) \<noteq> length (J h) then Inl NameError
      else
        (case energy_sites h c 0 0 of
           Inl err \<Rightarrow> Inl err
         | Inr e \<Rightarrow>
             (case np_dot (mu h) (map real_of_int (spins (config c))) of
                Inl err \<Rightarrow> Inl err
              | Inr d \<Rightarrow> Inr (e + d))))"

text \<open>
  \<open>compute_average_values\<close>. The accumulators are \<open>(E, M, Z, EE, MM)\<close>. A numpy float
  divided by zero is not an exception in the source, so there is no error branch for the
  quotients; the theorems about them assume \<open>T \<noteq> 0\<close> and show \<open>Z \<noteq> 0\<close>.
\<close>

function cav_loop ::
  "rounding \<Rightarrow> IsingHamiltonian \<Rightarrow> real \<Rightarrow> BitString \<Rightarrow> nat \<Rightarrow> nat
     \<Rightarrow> real \<times> real \<times> real \<times> real \<times> real
     \<Rightarrow> error + real \<times> real \<times> real \<times> real \<times> real" where
  "cav_loop up h T conf i n (E, M, Z, EE, MM) =
     (if i < n then
        (case set_int_config up conf (int i) of
           Inl err \<Rightarrow> Inl err
         | Inr conf' \<Rightarrow>
             (case energy h conf' of
                Inl err \<Rightarrow> Inl err
              | Inr Ei \<Rightarrow>
                  (let Zi = exp (- Ei / T);
                       Mi = real_of_int (sum_list (spins (config conf')))
                   in cav_loop up h T conf' (Suc i) n
                        (E + Ei * Zi, M + Mi * Zi, Z + Zi, EE + Ei * Ei * Zi, MM + Mi * Mi * Zi))))
      else Inr (E, M, Z, EE, MM))"
  by pat_completeness auto
termination
  by (relation "measure (\<lambda>(up, h, T, conf, i, n, acc). n - i)") auto

declare cav_loop.simps [simp del]

definition compute_average_values ::
  "rounding \<Rightarrow> IsingHamiltonian \<Rightarrow> real \<Rightarrow> error + real \<times> real \<times> real \<times> real" where
  "compute_average_values up h T =
     (case BitString_init (int (N_ham h)) of
        Inl err \<Rightarrow> Inl err
      | Inr conf \<Rightarrow>
          (case cav_loop up h T conf 0 (2 ^ N conf) (0, 0, 0, 0, 0) of
             Inl err \<Rightarrow> Inl err
           | Inr (E, M, Z, EE, MM) \<Rightarrow>
               (let E' = E / Z; M' = M / Z; EE' = EE / Z; MM' = MM / Z;
                    HC = (EE' - E' * E') / (T * T);
                    MS = (MM' - M' * M') / T
                in Inr (E', M', HC, MS))))"

text \<open>
  \<open>np.power(2, N)\<close> on two Python integers is computed in 64-bit signed integers and
  wraps around; \<open>range\<close> of a negative bound is empty.
\<close>

definition np_power_2 :: "nat \<Rightarrow> int" where
  "np_power_2 n = (let v = 2 ^ n mod 2 ^ 64 in if v < 2 ^ 63 then v else v - 2 ^ 64)"

text \<open>
  \<open>get_lowest_energy_config\<close>. The lists \<open>x\<close> and \<open>y\<close> of the source are appended to and
  never read; they are left out. \<open>xmin\<close> starts as \<open>None\<close>.
\<close>

function gle_loop ::
  "rounding \<Rightarrow> IsingHamiltonian \<Rightarrow> BitString \<Rightarrow> nat \<Rightarrow> nat \<Rightarrow> real \<Rightarrow> int option
     \<Rightarrow> error + BitString \<times> real \<times> int option" where
  "gle_loop up h bs i n emin xmin =
     (if i < n then
        (case set_int_config up bs (int i) of
           Inl err \<Rightarrow> Inl err
         | Inr bs' \<Rightarrow>
             (case energy h bs' of
                Inl err \<Rightarrow> Inl err
              | Inr ecurrent \<Rightarrow>
                  if ecurrent < emin then gle_loop up h bs' (Suc i) n ecurrent (Some (int i))
                  else gle_loop up h bs' (Suc i) n emin xmin))
      else Inr (bs, emin, xmin))"
  by pat_completeness auto
termination
  by (relation "measure (\<lambda>(up, h, bs, i, n, emin, xmin). n - i)") auto

declare gle_loop.simps [simp del]

definition get_lowest_energy_config ::
  "rounding \<Rightarrow> IsingHamiltonian \<Rightarrow> error + real \<times> int list" where
  "get_lowest_energy_config up h =
     (case BitString_init (int (N_ham h)) of
        Inl err \<Rightarrow> Inl err
      | Inr my_bs \<Rightarrow>
          (case set_int_config up my_bs 0 of
             Inl err \<Rightarrow> Inl err
           | Inr bs0 \<Rightarrow>
               (case energy h bs0 of
                  Inl err \<Rightarrow> Inl err
                | Inr e0 \<Rightarrow>
                    (case gle_loop up h bs0 0 (nat (np_power_2 (N bs0))) e0 None of
                       Inl err \<Rightarrow> Inl err
                     | Inr (bs1, emin, xmin) \<Rightarrow>
                         (case (case xmin of
                                  None \<Rightarrow> set_int_config_None bs1
                                | Some i \<Rightarrow> set_int_config up bs1 i) of
                            Inl err \<Rightarrow> Inl err
                          | Inr bs2 \<Rightarrow> Inr (emin, config bs2))))))"

subsection \<open>The specification's formulas\<close>

text \<open>
  The bits of \<open>d\<close> on \<open>n\<close> positions, most significant first: position \<open>x\<close> holds the
  binary digit of weight \<open>2 ^ (n - 1 - x)\<close>.
\<close>

definition bits_of :: "nat \<Rightarrow> int \<Rightarrow> int list" where
  "bits_of n d = map (\<lambda>x. (d div 2 ^ (n - 1 - x)) mod 2) [0..<n]"

text \<open>The share of position \<open>i\<close> in the integer value of \<open>n\<close> cells.\<close>

definition weight :: "nat \<Rightarrow> int list \<Rightarrow> nat \<Rightarrow> int" where
  "weight n c i = (if c ! i = 1 then 2 ^ (n - i - 1) else 0)"

text \<open>
  The energy as the specification words it: over every site \<open>i\<close> and every coupling
  \<open>(j, s)\<close> of site \<open>i\<close> with \<open>j \<ge> i\<close>, plus \<open>s\<close> for equal bits and minus \<open>s\<close> for different
  ones; then the field term.
\<close>

definition pair_term :: "int list \<Rightarrow> nat \<Rightarrow> int \<times> real \<Rightarrow> real" where
  "pair_term c i p =
     (if fst p < int i then 0 else if c ! i = c ! nat (fst p) then snd p else - snd p)"

definition energy_spec :: "IsingHamiltonian \<Rightarrow> int list \<Rightarrow> real" where
  "energy_spec h c =
     (\<Sum>i = 0..<length c. sum_list (map (pair_term c i) (J h ! i)))
     + (\<Sum>i = 0..<length c. mu h ! i * real_of_int (2 * c ! i - 1))"

text \<open>
  A model as the specification's data model has it: one field value per site, and every
  neighbour index a site index.
\<close>

definition wf_model :: "IsingHamiltonian \<Rightarrow> bool" where
  "wf_model h =
     (N_ham h = length (J h) \<and> length (mu h) = length (J h) \<and>
      list_all (list_all (\<lambda>p. 0 \<le> fst p \<and> fst p < int (length (J h)))) (J h))"

text \<open>The thermal sums of the specification over the indices \<open>0 .. 2 ^ n - 1\<close>.\<close>

definition E_at :: "IsingHamiltonian \<Rightarrow> nat \<Rightarrow> real" where
  "E_at h i = energy_spec h (bits_of (N_ham h) (int i))"

definition M_at :: "IsingHamiltonian \<Rightarrow> nat \<Rightarrow> real" where
  "M_at h i = real_of_int (\<Sum>x = 0..<N_ham h. 2 * bits_of (N_ham h) (int i) ! x - 1)"

definition Z_at :: "IsingHamiltonian \<Rightarrow> real \<Rightarrow> nat \<Rightarrow> real" where
  "Z_at h T i = exp (- E_at h i / T)"

definition Z_sum :: "IsingHamiltonian \<Rightarrow> real \<Rightarrow> real" where
  "Z_sum h T = (\<Sum>i = 0..<2 ^ N_ham h. Z_at h T i)"

definition E_unnorm :: "IsingHamiltonian \<Rightarrow> real \<Rightarrow> real" where
  "E_unnorm h T = (\<Sum>i = 0..<2 ^ N_ham h. E_at h i * Z_at h T i)"

definition EE_unnorm :: "IsingHamiltonian \<Rightarrow> real \<Rightarrow> real" where
  "EE_unnorm h T = (\<Sum>i = 0..<2 ^ N_ham h. E_at h i * E_at h i * Z_at h T i)"

definition M_unnorm :: "IsingHamiltonian \<Rightarrow> real \<Rightarrow> real" where
  "M_unnorm h T = (\<Sum>i = 0..<2 ^ N_ham h. M_at h i * Z_at h T i)"

definition MM_unnorm :: "IsingHamiltonian \<Rightarrow> real \<Rightarrow> real" where
  "MM_unnorm h T = (\<Sum>i = 0..<2 ^ N_ham h. M_at h i * M_at h i * Z_at h T i)"

text \<open>
  The double test agrees with the exact one on every value the decoding of \<open>d\<close> on \<open>n\<close>
  positions can meet: no positive value up to \<open>d\<close> is rounded up against a \<open>k < n\<close>.
\<close>

definition no_rounding :: "rounding \<Rightarrow> nat \<Rightarrow> int \<Rightarrow> bool" where
  "no_rounding up n d = (\<forall>dec k. 0 < dec \<and> dec \<le> d \<and> k < n \<longrightarrow> \<not> up dec k)"

section \<open>Properties\<close>

text \<open>
  The exact logarithm is at least \<open>k\<close> exactly when \<open>2 ^ k \<le> dec\<close>: a library that
  returned it unrounded would make \<open>log2_ge\<close> the exact comparison.
\<close>

lemma log2_le_iff:
  "0 < dec \<Longrightarrow> (real k \<le> log 2 (real_of_int dec)) = (2 ^ k \<le> dec)"
proof -
  assume pos: "0 < dec"
  have "(real k \<le> log 2 (real_of_int dec)) = ((2::real) powr real k \<le> real_of_int dec)"
    using pos by (simp add: le_log_iff)
  also have "\<dots> = ((2::real) ^ k \<le> real_of_int dec)"
    by (simp add: powr_realpow)
  also have "\<dots> = (real_of_int (2 ^ k) \<le> real_of_int dec)"
    by simp
  also have "\<dots> = (2 ^ k \<le> dec)"
    by (simp only: of_int_le_iff)
  finally show ?thesis .
qed

lemma log2_ge_unrounded:
  "0 < dec \<Longrightarrow>
   log2_ge (\<lambda>d k. real k \<le> log 2 (real_of_int d)) dec k = Inr (2 ^ k \<le> dec)"
  by (simp add: log2_ge_def log2_le_iff)

subsection \<open>Indexing inside the range\<close>

lemma getitem_nat [simp]: "x < length xs \<Longrightarrow> getitem xs (int x) = Inr (xs ! x)"
  by (simp add: getitem_def)

lemma setitem_nat [simp]: "x < length xs \<Longrightarrow> setitem xs (int x) v = Inr (xs[x := v])"
  by (simp add: setitem_def)

subsection \<open>Equality\<close>

lemma eq_loop_prefix:
  "length (config a) = N a \<Longrightarrow> N a \<le> length (config b) \<Longrightarrow> x \<le> N a \<Longrightarrow>
   eq_loop a b x = Inr (\<forall>i. x \<le> i \<and> i < N a \<longrightarrow> config a ! i = config b ! i)"
proof (induction a b x rule: eq_loop.induct)
  case (1 a b x)
  show ?case
  proof (cases "x < N a")
    case False
    then show ?thesis by (subst eq_loop.simps) simp
  next
    case True
    show ?thesis
    proof (cases "config a ! x = config b ! x")
      case diff: False
      with True "1.prems" show ?thesis
        by (subst eq_loop.simps) auto
    next
      case same: True
      have "eq_loop a b x = eq_loop a b (Suc x)"
        using True same "1.prems" by (subst eq_loop.simps) simp
      also have "\<dots> = Inr (\<forall>i. Suc x \<le> i \<and> i < N a \<longrightarrow> config a ! i = config b ! i)"
        using True same "1.prems" by (intro "1.IH") auto
      also have "(\<forall>i. Suc x \<le> i \<and> i < N a \<longrightarrow> config a ! i = config b ! i)
               = (\<forall>i. x \<le> i \<and> i < N a \<longrightarrow> config a ! i = config b ! i)"
        using same by (metis Suc_leI le_neq_implies_less Suc_leD)
      finally show ?thesis .
    qed
  qed
qed

text \<open>
  Claim C6, as stated (equal exactly when the lengths agree and every position agrees),
  fails: a one-bit configuration of zeros compares equal to the two-bit one, since the loop
  only visits the receiver's positions.
\<close>

theorem eq_bs_shorter_receiver_counterexample:
  "eq_bs \<lparr>N = 1, config = [0]\<rparr> \<lparr>N = 2, config = [0, 0]\<rparr> = Inr True
   \<and> length (config \<lparr>N = 1, config = [0]\<rparr>) \<noteq> length (config \<lparr>N = 2, config = [0, 0]\<rparr>)"
  by code_simp

text \<open>
  Claim C6, amended: when the receiver has \<open>N\<close> bits and the other configuration has at
  least \<open>N\<close>, the comparison returns whether the receiver's bits are the other's first \<open>N\<close>
  bits; for two configurations of the same length this is equality at every position.
\<close>

theorem eq_bs_compares_receiver_positions:
  "length (config a) = N a \<Longrightarrow> N a \<le> length (config b) \<Longrightarrow>
   eq_bs a b = Inr (config a = take (N a) (config b))"
  by (simp add: eq_bs_def eq_loop_prefix list_eq_iff_nth_eq)

text \<open>Claim C6, amended, at two equal and two unequal configurations of the same length.\<close>

theorem eq_bs_compares_receiver_positions_witness:
  "eq_bs \<lparr>N = 4, config = [1, 0, 1, 0]\<rparr> \<lparr>N = 4, config = [1, 0, 1, 0]\<rparr> = Inr True
   \<and> eq_bs \<lparr>N = 4, config = [1, 0, 1, 0]\<rparr> \<lparr>N = 4, config = [1, 1, 1, 0]\<rparr> = Inr False"
  using eq_bs_compares_receiver_positions [of "\<lparr>N = 4, config = [1, 0, 1, 0]\<rparr>" "\<lparr>N = 4, config = [1, 0, 1, 0]\<rparr>"]
        eq_bs_compares_receiver_positions [of "\<lparr>N = 4, config = [1, 0, 1, 0]\<rparr>" "\<lparr>N = 4, config = [1, 1, 1, 0]\<rparr>"]
  by simp

subsection \<open>Flipping a site\<close>

text \<open>
  Claim C7, as stated (every index outside \<open>0 .. N - 1\<close> fails, every negative one
  included), fails: index \<open>-1\<close> flips the last bit.
\<close>

theorem flip_site_negative_index_counterexample:
  "flip_site \<lparr>N = 2, config = [0, 0]\<rparr> (- 1) = Inr \<lparr>N = 2, config = [0, 1]\<rparr>"
  by code_simp

text \<open>
  Claim C7, amended: on a configuration of length \<open>N\<close>, \<open>flip_site i\<close> toggles bit \<open>i\<close> in
  place (1 becomes 0, anything else becomes 1) when \<open>0 \<le> i < N\<close>, toggles bit \<open>N + i\<close> when
  \<open>-N \<le> i < 0\<close>, and fails with IndexError for every other integer; it returns nothing
  but the updated receiver.
\<close>

theorem flip_site_by_index:
  "length (config b) = N b \<Longrightarrow>
   flip_site b i =
     (if 0 \<le> i \<and> i < int (N b) then
        Inr (b\<lparr>config := (config b)[nat i := (if config b ! nat i = 1 then 0 else 1)]\<rparr>)
      else if - int (N b) \<le> i \<and> i < 0 then
        Inr (b\<lparr>config := (config b)[nat (int (N b) + i) :=
               (if config b ! nat (int (N b) + i) = 1 then 0 else 1)]\<rparr>)
      else Inl IndexError)"
  by (simp add: flip_site_def getitem_def setitem_def)

text \<open>Claim C7, amended, at an index inside the range, a negative one and two outside.\<close>

theorem flip_site_by_index_witness:
  "flip_site \<lparr>N = 3, config = [0, 1, 1]\<rparr> 1 = Inr \<lparr>N = 3, config = [0, 0, 1]\<rparr>
   \<and> flip_site \<lparr>N = 3, config = [0, 1, 1]\<rparr> (- 3) = Inr \<lparr>N = 3, config = [1, 1, 1]\<rparr>
   \<and> flip_site \<lparr>N = 3, config = [0, 1, 1]\<rparr> 3 = Inl IndexError
   \<and> flip_site \<lparr>N = 3, config = [0, 1, 1]\<rparr> (- 4) = Inl IndexError"
  using flip_site_by_index [of "\<lparr>N = 3, config = [0, 1, 1]\<rparr>" 1]
        flip_site_by_index [of "\<lparr>N = 3, config = [0, 1, 1]\<rparr>" "- 3"]
        flip_site_by_index [of "\<lparr>N = 3, config = [0, 1, 1]\<rparr>" 3]
        flip_site_by_index [of "\<lparr>N = 3, config = [0, 1, 1]\<rparr>" "- 4"]
  by simp

subsection \<open>Decoding an integer\<close>

lemma div_pow2_one:
  fixes d :: int
  shows "2 ^ k \<le> d \<Longrightarrow> d < 2 ^ Suc k \<Longrightarrow> d div 2 ^ k = 1"
proof -
  assume a: "2 ^ k \<le> d" "d < 2 ^ Suc k"
  have "d div 2 ^ k = (d - 2 ^ k + 1 * 2 ^ k) div 2 ^ k" by simp
  also have "\<dots> = (d - 2 ^ k) div 2 ^ k + 1"
    by (subst div_mult_self1) simp_all
  also have "(d - 2 ^ k) div 2 ^ k = 0"
    using a by (intro div_pos_pos_trivial) simp_all
  finally show ?thesis by simp
qed

lemma div_pow2_sub:
  fixes d :: int
  assumes "m < k"
  shows "(d - 2 ^ k) div 2 ^ m mod 2 = d div 2 ^ m mod 2"
proof -
  obtain j where k: "k = m + Suc j"
    using assms less_iff_Suc_add by auto
  have "(d - 2 ^ k) = d + (- (2 ^ Suc j)) * 2 ^ m"
    by (simp add: k power_add)
  then have "(d - 2 ^ k) div 2 ^ m = (d + (- (2 ^ Suc j)) * 2 ^ m) div 2 ^ m"
    by simp
  also have "\<dots> = - (2 ^ Suc j) + d div 2 ^ m"
    by (rule div_mult_self1) simp
  finally have "(d - 2 ^ k) div 2 ^ m = d div 2 ^ m + 2 * (- (2 ^ j))"
    by simp
  then show ?thesis
    by (simp only: mod_mult_self2)
qed


text \<open>
  The decoding loop, entered at position \<open>x\<close> with \<open>0 \<le> dec < 2 ^ (n - x)\<close> and zeros from
  \<open>x\<close> on, writes the binary digits of \<open>dec\<close> into the positions \<open>x .. n - 1\<close>.
\<close>

lemma no_rounding_mono:
  "no_rounding up n d \<Longrightarrow> d' \<le> d \<Longrightarrow> no_rounding up n d'"
  by (auto simp: no_rounding_def)

text \<open>
  IEEE doubles round no value up against a \<open>k \<le> 48\<close>, and against 49 only
  \<open>2 ^ 49 - 1\<close>: on at most 49 positions every decoding is exact, and on 50 positions
  every decoding of a value up to \<open>2 ^ 49 - 2\<close>.
\<close>

lemma ieee_zone_table: "list_all (\<lambda>k. ieee_zone k = 0) [0..<49]"
  by code_simp

lemma ieee_zone_small: "k \<le> 48 \<Longrightarrow> ieee_zone k = 0"
  using ieee_zone_table by (simp add: list_all_iff)

lemma ieee_zone_49: "ieee_zone 49 = 1"
  by code_simp

lemma ieee_up_49: "ieee_up (2 ^ 49 - 1) 49"
  by (simp add: ieee_up_def ieee_zone_49)

lemma ieee_up_samples:
  "\<not> ieee_up (2 ^ 48 - 1) 48 \<and> \<not> ieee_up (2 ^ 49 - 2) 49
   \<and> ieee_up (2 ^ 50 - 2) 50 \<and> \<not> ieee_up (2 ^ 50 - 3) 50
   \<and> ieee_up (2 ^ 53 - 22) 53 \<and> \<not> ieee_up (2 ^ 53 - 23) 53
   \<and> ieee_up (2 ^ 54 - 45) 54 \<and> \<not> ieee_up (2 ^ 54 - 46) 54
   \<and> ieee_up (2 ^ 60 - 1) 60 \<and> \<not> ieee_up (2 ^ 60 - 1) 61"
  by code_simp

lemma no_rounding_ieee: "n \<le> 49 \<Longrightarrow> no_rounding ieee_up n d"
  by (simp add: no_rounding_def ieee_up_def ieee_zone_small)

lemma no_rounding_ieee_50: "d \<le> 2 ^ 49 - 2 \<Longrightarrow> no_rounding ieee_up 50 d"
proof -
  assume d: "d \<le> 2 ^ 49 - 2"
  have "\<not> ieee_up dec k" if "0 < dec" "dec \<le> d" "k < 50" for dec k
  proof (cases "k \<le> 48")
    case True
    then show ?thesis by (simp add: ieee_up_def ieee_zone_small)
  next
    case False
    with that(3) have "k = 49" by simp
    then show ?thesis using that(2) d by (simp add: ieee_up_def ieee_zone_49)
  qed
  then show ?thesis by (simp add: no_rounding_def)
qed

lemma set_int_config_loop_digits:
  "x \<le> n \<Longrightarrow> length c = n \<Longrightarrow> 0 \<le> dec \<Longrightarrow> dec < 2 ^ (n - x) \<Longrightarrow>
   (\<forall>i. x \<le> i \<and> i < n \<longrightarrow> c ! i = 0) \<Longrightarrow> no_rounding up n dec \<Longrightarrow>
   \<exists>c'. set_int_config_loop up n c x dec = Inr c' \<and> length c' = n \<and>
     (\<forall>i<n. c' ! i = (if i < x then c ! i else dec div 2 ^ (n - 1 - i) mod 2))"
proof (induction up n c x dec rule: set_int_config_loop.induct)
  case (1 up n c x dec)
  show ?case
  proof (cases "x < n")
    case False
    with "1.prems" show ?thesis
      by (subst set_int_config_loop.simps) simp
  next
    case xn: True
    let ?k = "n - x - 1"
    have nx: "n - x = Suc ?k" using xn by simp
    show ?thesis
    proof (cases "dec = 0")
      case True
      with xn "1.prems" show ?thesis
        by (subst set_int_config_loop.simps) simp
    next
      case nz: False
      then have pos: "0 < dec" using "1.prems" by simp
      show ?thesis
      proof (cases "2 ^ ?k \<le> dec")
        case big: True
        have lg: "log2_ge up dec (n - x - 1) = Inr True"
          using pos big by (simp add: log2_ge_def)
        have st: "setitem c (int x) 1 = Inr (c[x := 1])"
          using xn "1.prems" by simp
        have "\<exists>c'. set_int_config_loop up n (c[x := 1]) (Suc x) (dec - 2 ^ (n - x - 1)) = Inr c' \<and>
                length c' = n \<and>
                (\<forall>i<n. c' ! i = (if i < Suc x then c[x := 1] ! i
                                  else (dec - 2 ^ (n - x - 1)) div 2 ^ (n - 1 - i) mod 2))"
        proof (rule "1.IH"(1) [OF xn nz lg _ st])
          show "Suc x \<le> n" using xn by simp
          show "length (c[x := 1]) = n" using "1.prems" by simp
          show "0 \<le> dec - 2 ^ (n - x - 1)" using big by simp
          show "dec - 2 ^ (n - x - 1) < 2 ^ (n - Suc x)"
            using "1.prems"(4) nx by simp
          show "\<forall>i. Suc x \<le> i \<and> i < n \<longrightarrow> c[x := 1] ! i = 0"
            using "1.prems"(5) by simp
          show "no_rounding up n (dec - 2 ^ (n - x - 1))"
            using "1.prems"(6) by (rule no_rounding_mono) simp
        qed simp
        then obtain c' where c': "set_int_config_loop up n (c[x := 1]) (Suc x) (dec - 2 ^ ?k) = Inr c'"
          "length c' = n"
          "\<And>i. i < n \<Longrightarrow> c' ! i = (if i < Suc x then c[x := 1] ! i
                                  else (dec - 2 ^ ?k) div 2 ^ (n - 1 - i) mod 2)"
          by blast
        have run: "set_int_config_loop up n c x dec = Inr c'"
          using xn nz lg st c'(1) by (subst set_int_config_loop.simps) simp
        have "c' ! i = (if i < x then c ! i else dec div 2 ^ (n - 1 - i) mod 2)" if i: "i < n" for i
        proof -
          consider "i < x" | "i = x" | "x < i" by linarith
          then show ?thesis
          proof cases
            case 1
            then show ?thesis using c'(3) [OF i] by simp
          next
            case 2
            have "dec div 2 ^ ?k = 1"
              using big "1.prems"(4) nx by (intro div_pow2_one) simp_all
            moreover have "n - 1 - x = ?k" by simp
            ultimately show ?thesis using 2 c'(3) [OF i] xn "1.prems"(2) by simp
          next
            case 3
            have "n - 1 - i < ?k" using 3 i by simp
            then have "(dec - 2 ^ ?k) div 2 ^ (n - 1 - i) mod 2 = dec div 2 ^ (n - 1 - i) mod 2"
              by (rule div_pow2_sub)
            then show ?thesis using 3 c'(3) [OF i] by simp
          qed
        qed
        with run c'(2) show ?thesis by blast
      next
        case small: False
        have "\<not> up dec (n - x - 1)"
          using "1.prems"(6) pos xn by (simp add: no_rounding_def)
        then have lg: "log2_ge up dec (n - x - 1) = Inr False"
          using pos small by (simp add: log2_ge_def)
        have "\<exists>c'. set_int_config_loop up n c (Suc x) dec = Inr c' \<and> length c' = n \<and>
                (\<forall>i<n. c' ! i = (if i < Suc x then c ! i else dec div 2 ^ (n - 1 - i) mod 2))"
        proof (rule "1.IH"(2) [OF xn nz lg])
          show "Suc x \<le> n" using xn by simp
          show "length c = n" using "1.prems" by simp
          show "0 \<le> dec" using "1.prems" by simp
          show "dec < 2 ^ (n - Suc x)" using small nx by simp
          show "\<forall>i. Suc x \<le> i \<and> i < n \<longrightarrow> c ! i = 0" using "1.prems"(5) by simp
          show "no_rounding up n dec" using "1.prems"(6) .
        qed simp
        then obtain c' where c': "set_int_config_loop up n c (Suc x) dec = Inr c'"
          "length c' = n"
          "\<And>i. i < n \<Longrightarrow> c' ! i = (if i < Suc x then c ! i else dec div 2 ^ (n - 1 - i) mod 2)"
          by blast
        have run: "set_int_config_loop up n c x dec = Inr c'"
          using xn nz lg c'(1) by (subst set_int_config_loop.simps) simp
        have "c' ! i = (if i < x then c ! i else dec div 2 ^ (n - 1 - i) mod 2)" if i: "i < n" for i
        proof (cases "i = x")
          case True
          have "dec div 2 ^ ?k = 0"
            using small "1.prems"(3) by (intro div_pos_pos_trivial) simp_all
          moreover have "n - 1 - x = ?k" by simp
          ultimately show ?thesis using True c'(3) [OF i] "1.prems"(5) xn by simp
        next
          case False
          then show ?thesis using c'(3) [OF i] by auto
        qed
        with run c'(2) show ?thesis by blast
      qed
    qed
  qed
qed

lemma set_int_config_digits:
  assumes "0 \<le> d" "d < 2 ^ N b" "no_rounding up (N b) d"
  shows "set_int_config up b d = Inr (b\<lparr>config := bits_of (N b) d\<rparr>)"
proof -
  obtain c' where c': "set_int_config_loop up (N b) (replicate (N b) 0) 0 d = Inr c'"
    "length c' = N b" "\<forall>i<N b. c' ! i = d div 2 ^ (N b - 1 - i) mod 2"
    using set_int_config_loop_digits [of 0 "N b" "replicate (N b) 0" d up] assms by auto
  have "c' = bits_of (N b) d"
    using c'(2,3) by (simp add: bits_of_def list_eq_iff_nth_eq)
  with c'(1) show ?thesis
    by (simp add: set_int_config_def BitString_init_def)
qed

lemma int_loop_sum:
  "N b \<le> length (config b) \<Longrightarrow>
   int_loop b x dec = Inr (dec + (\<Sum>i = x..<N b. weight (N b) (config b) i))"
proof (induction b x dec rule: int_loop.induct)
  case (1 b x dec)
  show ?case
  proof (cases "x < N b")
    case False
    then show ?thesis by (subst int_loop.simps) simp
  next
    case True
    then have split: "(\<Sum>i = x..<N b. weight (N b) (config b) i)
        = weight (N b) (config b) x + (\<Sum>i = Suc x..<N b. weight (N b) (config b) i)"
      by (simp add: sum.atLeast_Suc_lessThan)
    have g: "getitem (config b) (int x) = Inr (config b ! x)"
      using True "1.prems" by simp
    show ?thesis
    proof (cases "config b ! x = 1")
      case one: True
      have "int_loop b x dec = int_loop b (Suc x) (dec + 2 ^ (N b - x - 1))"
        using True g one by (subst int_loop.simps) simp
      also have "\<dots> = Inr (dec + 2 ^ (N b - x - 1) + (\<Sum>i = Suc x..<N b. weight (N b) (config b) i))"
        using True g one "1.prems" by (intro "1.IH"(1)) simp_all
      finally show ?thesis using one by (simp add: split) (simp add: weight_def)
    next
      case other: False
      have "int_loop b x dec = int_loop b (Suc x) dec"
        using True g other by (subst int_loop.simps) simp
      also have "\<dots> = Inr (dec + (\<Sum>i = Suc x..<N b. weight (N b) (config b) i))"
        using True g other "1.prems" by (intro "1.IH"(2)) simp_all
      finally show ?thesis using other by (simp add: split) (simp add: weight_def)
    qed
  qed
qed

lemma binary_expansion:
  fixes d :: int
  shows "(\<Sum>m<n. (d div 2 ^ m mod 2) * 2 ^ m) = d mod 2 ^ n"
proof (induction n)
  case 0
  show ?case by simp
next
  case (Suc n)
  have "d mod 2 ^ Suc n = d mod (2 ^ n * 2)" by (simp add: mult.commute)
  also have "\<dots> = 2 ^ n * (d div 2 ^ n mod 2) + d mod 2 ^ n"
    by (rule zmod_zmult2_eq) simp
  finally show ?case using Suc by (simp add: mult.commute)
qed

lemma weight_bits_of:
  "i < n \<Longrightarrow> weight n (bits_of n d) i = (d div 2 ^ (n - Suc i) mod 2) * 2 ^ (n - Suc i)"
proof -
  assume i: "i < n"
  have "d div 2 ^ (n - Suc i) mod 2 = 0 \<or> d div 2 ^ (n - Suc i) mod 2 = 1"
    by presburger
  then show ?thesis using i by (auto simp: weight_def bits_of_def)
qed

lemma sum_weight_bits_of:
  "(\<Sum>i = 0..<n. weight n (bits_of n d) i) = d mod 2 ^ n"
proof -
  have "(\<Sum>i = 0..<n. weight n (bits_of n d) i)
      = (\<Sum>i<n. (d div 2 ^ (n - Suc i) mod 2) * 2 ^ (n - Suc i))"
    by (simp add: weight_bits_of atLeast0LessThan)
  also have "\<dots> = (\<Sum>m<n. (d div 2 ^ m mod 2) * 2 ^ m)"
    by (rule sum.nat_diff_reindex)
  also have "\<dots> = d mod 2 ^ n" by (rule binary_expansion)
  finally show ?thesis .
qed

lemma length_bits_of [simp]: "length (bits_of n d) = n"
  by (simp add: bits_of_def)

text \<open>With \<open>dec \<ge> 2 ^ (n - x)\<close> every remaining position takes a 1.\<close>

lemma set_int_config_loop_saturates:
  "x \<le> n \<Longrightarrow> length c = n \<Longrightarrow> 2 ^ (n - x) \<le> dec \<Longrightarrow>
   set_int_config_loop up n c x dec = Inr (take x c @ replicate (n - x) 1)"
proof (induction up n c x dec rule: set_int_config_loop.induct)
  case (1 up n c x dec)
  show ?case
  proof (cases "x < n")
    case False
    with "1.prems" show ?thesis
      by (subst set_int_config_loop.simps) simp
  next
    case xn: True
    have nx: "n - x = Suc (n - x - 1)" using xn by simp
    have e: "(2::int) ^ (n - x) = 2 * 2 ^ (n - x - 1)"
      by (subst nx) simp
    have p: "(0::int) < 2 ^ (n - x - 1)" by simp
    have pos: "0 < dec"
      using "1.prems"(3) e p by linarith
    have big: "2 ^ (n - x - 1) \<le> dec"
      using "1.prems"(3) e p by linarith
    have nz: "dec \<noteq> 0" using pos by simp
    have lg: "log2_ge up dec (n - x - 1) = Inr True"
      using pos big by (simp add: log2_ge_def)
    have st: "setitem c (int x) 1 = Inr (c[x := 1])"
      using xn "1.prems" by simp
    have "set_int_config_loop up n c x dec
        = set_int_config_loop up n (c[x := 1]) (Suc x) (dec - 2 ^ (n - x - 1))"
      using xn nz lg st by (subst set_int_config_loop.simps) simp
    also have "\<dots> = Inr (take (Suc x) (c[x := 1]) @ replicate (n - Suc x) 1)"
    proof (rule "1.IH"(1) [OF xn nz lg _ st])
      show "Suc x \<le> n" using xn by simp
      show "length (c[x := 1]) = n" using "1.prems" by simp
      show "2 ^ (n - Suc x) \<le> dec - 2 ^ (n - x - 1)"
        using "1.prems"(3) e by simp
    qed simp
    also have "take (Suc x) (c[x := 1]) @ replicate (n - Suc x) 1 = take x c @ replicate (n - x) 1"
      using xn "1.prems"(2) by (subst nx) (simp add: take_Suc_conv_app_nth replicate_app_Cons_same)
    finally show ?thesis .
  qed
qed

text \<open>
  Whatever the rounding, a decoding that returns leaves \<open>n\<close> cells, each 0 or 1: the loop
  only ever stores a 1.
\<close>

lemma set_int_config_loop_bits:
  "length c = n \<Longrightarrow> list_all (\<lambda>v. v = 0 \<or> v = 1) c \<Longrightarrow>
   set_int_config_loop up n c x dec = Inr c' \<Longrightarrow>
   length c' = n \<and> list_all (\<lambda>v. v = 0 \<or> v = 1) c'"
proof (induction up n c x dec rule: set_int_config_loop.induct)
  case (1 up n c x dec)
  show ?case
  proof (cases "x < n \<and> dec \<noteq> 0")
    case False
    then have "set_int_config_loop up n c x dec = Inr c"
      by (subst set_int_config_loop.simps) auto
    with "1.prems" show ?thesis by simp
  next
    case True
    then have xn: "x < n" and nz: "dec \<noteq> 0" by simp_all
    have st: "setitem c (int x) 1 = Inr (c[x := 1])"
      using xn "1.prems"(1) by simp
    show ?thesis
    proof (cases "log2_ge up dec (n - x - 1)")
      case (Inl e)
      then have "set_int_config_loop up n c x dec = Inl e"
        using xn nz by (subst set_int_config_loop.simps) simp
      with "1.prems"(3) show ?thesis by simp
    next
      case (Inr t)
      show ?thesis
      proof (cases t)
        case True
        with Inr have lg: "log2_ge up dec (n - x - 1) = Inr True" by simp
        have "set_int_config_loop up n c x dec
            = set_int_config_loop up n (c[x := 1]) (Suc x) (dec - 2 ^ (n - x - 1))"
          using xn nz lg st by (subst set_int_config_loop.simps) simp
        with "1.prems"(3)
        have r: "set_int_config_loop up n (c[x := 1]) (Suc x) (dec - 2 ^ (n - x - 1)) = Inr c'"
          by simp
        show ?thesis
        proof (rule "1.IH"(1) [OF xn nz lg _ st _ _ r])
          show "length (c[x := 1]) = n" using "1.prems"(1) by simp
          show "list_all (\<lambda>v. v = 0 \<or> v = 1) (c[x := 1])"
            using "1.prems"(2) set_update_subset_insert [of c x 1]
            by (auto simp: list_all_iff)
        qed simp
      next
        case False
        with Inr have lg: "log2_ge up dec (n - x - 1) = Inr False" by simp
        have "set_int_config_loop up n c x dec = set_int_config_loop up n c (Suc x) dec"
          using xn nz lg by (subst set_int_config_loop.simps) simp
        with "1.prems"(3) have r: "set_int_config_loop up n c (Suc x) dec = Inr c'"
          by simp
        show ?thesis
          by (rule "1.IH"(2) [OF xn nz lg _ "1.prems"(1,2) r]) simp
      qed
    qed
  qed
qed

lemma set_int_config_bits:
  assumes "set_int_config up b d = Inr b'"
  shows "N b' = N b \<and> length (config b') = N b \<and> list_all (\<lambda>v. v = 0 \<or> v = 1) (config b')"
proof -
  from assms obtain c' where
    c': "set_int_config_loop up (N b) (replicate (N b) 0) 0 d = Inr c'" and b': "b' = b\<lparr>config := c'\<rparr>"
    by (auto simp: set_int_config_def BitString_init_def split: sum.splits)
  have "length c' = N b \<and> list_all (\<lambda>v. v = 0 \<or> v = 1) c'"
    by (rule set_int_config_loop_bits [OF _ _ c']) (simp_all add: list_all_iff)
  with b' show ?thesis by simp
qed

text \<open>
  The outcome of a decoding depends on the receiver through \<open>N\<close> alone: two receivers of
  the same length either both get the same bits or both raise the same exception.
\<close>

lemma set_int_config_same_outcome:
  assumes "N a = N b"
  shows "(\<exists>e. set_int_config up a d = Inl e \<and> set_int_config up b d = Inl e) \<or>
         (\<exists>a' b'. set_int_config up a d = Inr a' \<and> set_int_config up b d = Inr b' \<and>
                   config a' = config b')"
  using assms by (auto simp: set_int_config_def BitString_init_def split: sum.splits)

text \<open>
  The defect of the decoding. When the library rounds the logarithm of \<open>2 ^ k - 1\<close> up
  to \<open>k\<close>, the first iteration on \<open>k + 1\<close> positions takes \<open>2 ^ k\<close> away from \<open>2 ^ k - 1\<close>,
  and the second one calls \<open>math.log2(-1)\<close>.
\<close>

lemma set_int_config_rounded_up:
  assumes "0 < k" and "up (2 ^ k - 1) k" and "N b = Suc k"
  shows "set_int_config up b (2 ^ k - 1) = Inl ValueError"
proof -
  let ?c = "replicate (Suc k) (0::int)"
  have two: "(2::int) \<le> 2 ^ k"
    using assms(1) power_increasing [of 1 k "2::int"] by simp
  have first: "log2_ge up (2 ^ k - 1) (Suc k - 0 - 1) = Inr True"
    using two assms(2) by (simp add: log2_ge_def)
  have st: "setitem ?c (int 0) 1 = Inr (?c[0 := 1])"
    by (rule setitem_nat) simp
  have second: "log2_ge up (2 ^ k - 1 - 2 ^ (Suc k - 0 - 1)) (Suc k - Suc 0 - 1) = Inl ValueError"
    by (simp add: log2_ge_def)
  have "set_int_config_loop up (Suc k) ?c 0 (2 ^ k - 1)
      = set_int_config_loop up (Suc k) (?c[0 := 1]) (Suc 0) (2 ^ k - 1 - 2 ^ (Suc k - 0 - 1))"
    using two first st by (subst set_int_config_loop.simps) simp
  also have "\<dots> = Inl ValueError"
    using assms(1) second by (subst set_int_config_loop.simps) simp
  finally have loop: "set_int_config_loop up (Suc k) ?c 0 (2 ^ k - 1) = Inl ValueError" .
  have "BitString_init (int (N b)) = Inr \<lparr>N = Suc k, config = ?c\<rparr>"
    unfolding assms(3) BitString_init_def by (simp only: nat_int) simp
  with loop show ?thesis
    by (simp add: set_int_config_def)
qed

lemma bits_of_nth:
  "x < n \<Longrightarrow> bits_of n d ! x = d div 2 ^ (n - 1 - x) mod 2"
  by (simp add: bits_of_def)

lemma int_bs_bits_of:
  "0 \<le> d \<Longrightarrow> d < 2 ^ N b \<Longrightarrow> int_bs (b\<lparr>config := bits_of (N b) d\<rparr>) = Inr d"
  by (simp add: int_bs_def int_loop_sum sum_weight_bits_of)

text \<open>A 0/1 configuration is determined by its integer value.\<close>

lemma bits_of_Suc:
  "bits_of (Suc n) v = bits_of n (v div 2) @ [v mod 2]"
proof (rule nth_equalityI)
  show "length (bits_of (Suc n) v) = length (bits_of n (v div 2) @ [v mod 2])" by simp
next
  fix x assume "x < length (bits_of (Suc n) v)"
  then have x: "x < Suc n" by simp
  show "bits_of (Suc n) v ! x = (bits_of n (v div 2) @ [v mod 2]) ! x"
  proof (cases "x < n")
    case True
    then have "n - x = Suc (n - 1 - x)" by simp
    then have "v div 2 ^ (n - x) = v div (2 * 2 ^ (n - 1 - x))"
      by simp
    also have "\<dots> = v div 2 div 2 ^ (n - 1 - x)"
      by (rule zdiv_zmult2_eq) simp
    finally have "v div 2 ^ (n - x) = v div 2 div 2 ^ (n - 1 - x)" .
    with True x show ?thesis by (simp add: bits_of_nth nth_append)
  next
    case False
    with x have "x = n" by simp
    then show ?thesis by (simp add: bits_of_nth nth_append)
  qed
qed

lemma weight_sum_snoc:
  assumes "length c = n" and "v = 0 \<or> v = 1"
  shows "(\<Sum>i = 0..<Suc n. weight (Suc n) (c @ [v]) i) = 2 * (\<Sum>i = 0..<n. weight n c i) + v"
proof -
  have "weight (Suc n) (c @ [v]) i = 2 * weight n c i" if "i < n" for i
  proof -
    have "Suc n - i - 1 = Suc (n - i - 1)" using that by simp
    then show ?thesis using that assms(1) by (simp add: weight_def nth_append)
  qed
  then have "(\<Sum>i = 0..<n. weight (Suc n) (c @ [v]) i) = 2 * (\<Sum>i = 0..<n. weight n c i)"
    by (simp add: sum_distrib_left)
  moreover have "weight (Suc n) (c @ [v]) n = v"
    using assms by (auto simp: weight_def nth_append)
  ultimately show ?thesis by simp
qed

lemma bits_of_weight_sum:
  "list_all (\<lambda>v. v = 0 \<or> v = 1) c \<Longrightarrow>
   bits_of (length c) (\<Sum>i = 0..<length c. weight (length c) c i) = c"
proof (induction c rule: rev_induct)
  case Nil
  show ?case by (simp add: bits_of_def)
next
  case (snoc v c)
  then have v: "v = 0 \<or> v = 1" and c: "list_all (\<lambda>v. v = 0 \<or> v = 1) c" by simp_all
  let ?V = "\<Sum>i = 0..<length c. weight (length c) c i"
  have "(\<Sum>i = 0..<length (c @ [v]). weight (length (c @ [v])) (c @ [v]) i) = 2 * ?V + v"
    using weight_sum_snoc [OF refl v, of c] by simp
  moreover have "(2 * ?V + v) div 2 = ?V" "(2 * ?V + v) mod 2 = v"
    using v by auto
  ultimately show ?case using snoc.IH [OF c] by (simp add: bits_of_Suc)
qed

lemma int_bs_unique:
  assumes "length c = N b" and "list_all (\<lambda>v. v = 0 \<or> v = 1) c"
    and "int_bs (b\<lparr>config := c\<rparr>) = Inr d"
  shows "c = bits_of (N b) d"
proof -
  have "d = (\<Sum>i = 0..<N b. weight (N b) c i)"
    using assms(1,3) by (simp add: int_bs_def int_loop_sum)
  then show ?thesis using bits_of_weight_sum [OF assms(2)] assms(1) by simp
qed

text \<open>
  Where no value is rounded up, decoding is exact: for \<open>0 \<le> d < 2 ^ N\<close>,
  \<open>set_int_config d\<close> succeeds, keeps the length, and \<open>int\<close> of the result is \<open>d\<close>;
  position \<open>x\<close> of the result is the binary digit of \<open>d\<close> of weight \<open>2 ^ (N - 1 - x)\<close>, so
  position 0 is the most significant bit. The result is the only 0/1 configuration of
  length \<open>N\<close> whose \<open>int\<close> is \<open>d\<close>.
\<close>

lemma set_int_config_then_int_unrounded:
  assumes "0 \<le> d" and "d < 2 ^ N b" and "no_rounding up (N b) d"
  shows "\<exists>b'. set_int_config up b d = Inr b' \<and> N b' = N b \<and> length (config b') = N b \<and>
           int_bs b' = Inr d \<and>
           (\<forall>x<N b. config b' ! x = d div 2 ^ (N b - 1 - x) mod 2) \<and>
           (\<forall>c. length c = N b \<and> list_all (\<lambda>v. v = 0 \<or> v = 1) c \<and>
                int_bs (b\<lparr>config := c\<rparr>) = Inr d \<longrightarrow> c = config b')"
proof -
  let ?b' = "b\<lparr>config := bits_of (N b) d\<rparr>"
  have "set_int_config up b d = Inr ?b'" using assms by (rule set_int_config_digits)
  moreover have "int_bs ?b' = Inr d" using assms(1,2) by (rule int_bs_bits_of)
  moreover have "\<forall>x<N b. config ?b' ! x = d div 2 ^ (N b - 1 - x) mod 2"
    by (simp add: bits_of_nth)
  moreover have "\<forall>c. length c = N b \<and> list_all (\<lambda>v. v = 0 \<or> v = 1) c \<and>
                int_bs (b\<lparr>config := c\<rparr>) = Inr d \<longrightarrow> c = config ?b'"
    using int_bs_unique [of _ b d] by simp
  ultimately show ?thesis by simp
qed

text \<open>With IEEE doubles the round trip holds on every configuration of at most 49 bits.\<close>

lemma set_int_config_then_int_ieee:
  assumes "N b \<le> 49" and "0 \<le> d" and "d < 2 ^ N b"
  shows "\<exists>b'. set_int_config ieee_up b d = Inr b' \<and> N b' = N b \<and>
           config b' = bits_of (N b) d \<and> int_bs b' = Inr d"
  using set_int_config_digits [OF assms(2,3) no_rounding_ieee [OF assms(1)]]
        int_bs_bits_of [OF assms(2,3)]
  by simp

text \<open>The value of the repository's tests: 97 on eight bits is 0, 1, 1, 0, 0, 0, 0, 1 and back.\<close>

lemma set_int_config_97:
  "set_int_config ieee_up \<lparr>N = 8, config = [0, 0, 0, 0, 0, 0, 0, 0]\<rparr> 97
       = Inr \<lparr>N = 8, config = [0, 1, 1, 0, 0, 0, 0, 1]\<rparr>
   \<and> int_bs \<lparr>N = 8, config = [0, 1, 1, 0, 0, 0, 0, 1]\<rparr> = Inr 97"
proof -
  have run: "set_int_config ieee_up \<lparr>N = 8, config = [0, 0, 0, 0, 0, 0, 0, 0]\<rparr> 97
       = Inr \<lparr>N = 8, config = [0, 1, 1, 0, 0, 0, 0, 1]\<rparr>"
    by code_simp
  have "no_rounding ieee_up (N \<lparr>N = 8, config = [0, 0, 0, 0, 0, 0, 0, 0]\<rparr>) 97"
    by (rule no_rounding_ieee) simp
  then show ?thesis
    using set_int_config_then_int_unrounded
            [of 97 "\<lparr>N = 8, config = [0, 0, 0, 0, 0, 0, 0, 0]\<rparr>" ieee_up]
    unfolding run by simp
qed

text \<open>
  Claim C4 (the round trip for every \<open>N\<close> and every \<open>0 \<le> d < 2 ^ N\<close>) is what the
  decoding is written for, and the source misses it through the rounded logarithm:
  whenever the library rounds the logarithm of \<open>2 ^ k - 1\<close> up to \<open>k\<close>, as IEEE doubles do
  from \<open>k = 49\<close> on, \<open>set_int_config\<close> of the value \<open>2 ^ k - 1\<close>, which is in range on
  \<open>k + 1\<close> bits, raises ValueError and sets no bit.
\<close>

theorem set_int_config_in_range_raises:
  assumes "0 < k" and "up (2 ^ k - 1) k" and "N b = Suc k"
  shows "(0::int) \<le> 2 ^ k - 1 \<and> (2::int) ^ k - 1 < 2 ^ N b \<and>
         set_int_config up b (2 ^ k - 1) = Inl ValueError"
proof -
  have "(1::int) \<le> 2 ^ k" by simp
  moreover have "(0::int) < 2 ^ k" by simp
  then have "(2::int) ^ k - 1 < 2 ^ Suc k" unfolding power_Suc by linarith
  ultimately show ?thesis
    using set_int_config_rounded_up [of k up b, OF assms] assms(3) by simp
qed

text \<open>Claim C4 at \<open>BitString(50).set_int_config(2 ** 49 - 1)\<close>.\<close>

theorem set_int_config_in_range_raises_witness:
  "(0::nat) < 49 \<and> ieee_up (2 ^ 49 - 1) 49 \<and> N \<lparr>N = 50, config = replicate 50 0\<rparr> = Suc 49
   \<and> (0::int) \<le> 2 ^ 49 - 1 \<and> (2::int) ^ 49 - 1 < 2 ^ 50
   \<and> set_int_config ieee_up \<lparr>N = 50, config = replicate 50 0\<rparr> (2 ^ 49 - 1) = Inl ValueError"
proof -
  have k: "(0::nat) < 49" by simp
  have n: "N \<lparr>N = 50, config = replicate 50 0\<rparr> = Suc 49" by simp
  show ?thesis
    using set_int_config_in_range_raises
            [of 49 ieee_up "\<lparr>N = 50, config = replicate 50 0\<rparr>", OF k ieee_up_49 n]
          ieee_up_49
    by simp
qed

text \<open>
  Claim C5, as stated (every \<open>d \<ge> 2 ^ N\<close> fails), does not hold: 4 on two bits is
  accepted and leaves both bits set.
\<close>

theorem set_int_config_too_large_counterexample:
  "set_int_config ieee_up \<lparr>N = 2, config = [0, 0]\<rparr> 4 = Inr \<lparr>N = 2, config = [1, 1]\<rparr>"
  by code_simp

text \<open>
  Claim C5, amended: on a configuration with \<open>N \<ge> 1\<close>, every \<open>d < 0\<close> fails with the
  ValueError of \<open>math.log2\<close> before the receiver is assigned anything; every
  \<open>d \<ge> 2 ^ N\<close> is accepted and sets all \<open>N\<close> bits to 1. This holds whatever the rounding.
\<close>

theorem set_int_config_out_of_range:
  "(d < 0 \<and> 0 < N b \<longrightarrow> set_int_config up b d = Inl ValueError) \<and>
   (2 ^ N b \<le> d \<longrightarrow> set_int_config up b d = Inr (b\<lparr>config := replicate (N b) 1\<rparr>))"
proof (intro conjI impI)
  assume "d < 0 \<and> 0 < N b"
  then show "set_int_config up b d = Inl ValueError"
    by (simp add: set_int_config_def BitString_init_def set_int_config_loop.simps log2_ge_def)
next
  assume "2 ^ N b \<le> d"
  then show "set_int_config up b d = Inr (b\<lparr>config := replicate (N b) 1\<rparr>)"
    using set_int_config_loop_saturates [of 0 "N b" "replicate (N b) 0" d up]
    by (simp add: set_int_config_def BitString_init_def)
qed

text \<open>Claim C5, amended, at \<open>-1\<close> and at 9 on three bits.\<close>

theorem set_int_config_out_of_range_witness:
  "set_int_config ieee_up \<lparr>N = 3, config = [0, 1, 0]\<rparr> (- 1) = Inl ValueError
   \<and> set_int_config ieee_up \<lparr>N = 3, config = [0, 1, 0]\<rparr> 9 = Inr \<lparr>N = 3, config = [1, 1, 1]\<rparr>"
  using set_int_config_out_of_range [of "- 1" "\<lparr>N = 3, config = [0, 1, 0]\<rparr>" ieee_up]
        set_int_config_out_of_range [of 9 "\<lparr>N = 3, config = [0, 1, 0]\<rparr>" ieee_up]
  by (simp add: numeral_3_eq_3)

text \<open>
  Claim C10 (two configurations of the same length hold the same bits after
  \<open>set_int_config d\<close> with \<open>d\<close> in range) is what building the bits in a fresh array is
  for; by \<open>set_int_config_same_outcome\<close> the two calls never differ in their outcome.
  The source misses the claim through the same rounded logarithm as for claim C4:
  whenever the library rounds the logarithm of \<open>2 ^ k - 1\<close> up to \<open>k\<close>, both calls with
  \<open>2 ^ k - 1\<close> on \<open>k + 1\<close> bits raise ValueError, and each receiver keeps the bits it had,
  which may differ.
\<close>

theorem set_int_config_both_raise:
  assumes "0 < k" and "up (2 ^ k - 1) k" and "N a = Suc k" and "N b = Suc k"
  shows "(2::int) ^ k - 1 < 2 ^ N a \<and>
         set_int_config up a (2 ^ k - 1) = Inl ValueError \<and>
         set_int_config up b (2 ^ k - 1) = Inl ValueError"
proof -
  have "(0::int) < 2 ^ k" by simp
  then have "(2::int) ^ k - 1 < 2 ^ Suc k" unfolding power_Suc by linarith
  then show ?thesis
    using set_int_config_rounded_up [of k up a, OF assms(1,2,3)]
          set_int_config_rounded_up [of k up b, OF assms(1,2,4)] assms(3)
    by simp
qed

text \<open>Claim C10 at \<open>2 ** 49 - 1\<close> on fifty bits, from all zeros and from all ones.\<close>

theorem set_int_config_both_raise_witness:
  "(0::nat) < 49 \<and> ieee_up (2 ^ 49 - 1) 49
   \<and> N \<lparr>N = 50, config = replicate 50 0\<rparr> = Suc 49 \<and> N \<lparr>N = 50, config = replicate 50 1\<rparr> = Suc 49
   \<and> config \<lparr>N = 50, config = replicate 50 0\<rparr> \<noteq> config \<lparr>N = 50, config = replicate 50 1\<rparr>
   \<and> set_int_config ieee_up \<lparr>N = 50, config = replicate 50 0\<rparr> (2 ^ 49 - 1) = Inl ValueError
   \<and> set_int_config ieee_up \<lparr>N = 50, config = replicate 50 1\<rparr> (2 ^ 49 - 1) = Inl ValueError"
proof -
  have k: "(0::nat) < 49" by simp
  have a: "N \<lparr>N = 50, config = replicate 50 0\<rparr> = Suc 49" by simp
  have b: "N \<lparr>N = 50, config = replicate 50 1\<rparr> = Suc 49" by simp
  show ?thesis
    using set_int_config_both_raise
            [of 49 ieee_up "\<lparr>N = 50, config = replicate 50 0\<rparr>"
               "\<lparr>N = 50, config = replicate 50 1\<rparr>", OF k ieee_up_49 a b]
          ieee_up_49
    by simp
qed

subsection \<open>Counting bits\<close>

lemma on_off_loop:
  "list_all (\<lambda>v. v = 0 \<or> v = 1) xs \<Longrightarrow>
   on_loop xs ones + off_loop xs zeroes = ones + zeroes + length xs"
  by (induction xs arbitrary: ones zeroes) auto

lemma list_all_update:
  "list_all P xs \<Longrightarrow> P v \<Longrightarrow> list_all P (xs[k := v])"
  using set_update_subset_insert [of xs k v] by (auto simp: list_all_iff)

lemma set_config_loop_copies:
  "x \<le> n \<Longrightarrow> length s = n \<Longrightarrow> length c = n \<Longrightarrow>
   set_config_loop n c s x = Inr (take x c @ drop x s)"
proof (induction n c s x rule: set_config_loop.induct)
  case (1 n c s x)
  show ?case
  proof (cases "x < n")
    case False
    with "1.prems" show ?thesis by (subst set_config_loop.simps) simp
  next
    case True
    have g: "getitem s (int x) = Inr (s ! x)" using True "1.prems" by simp
    have st: "setitem c (int x) (s ! x) = Inr (c[x := s ! x])" using True "1.prems" by simp
    have "set_config_loop n c s x = set_config_loop n (c[x := s ! x]) s (Suc x)"
      using True g st by (subst set_config_loop.simps) simp
    also have "\<dots> = Inr (take (Suc x) (c[x := s ! x]) @ drop (Suc x) s)"
      using True "1.prems" by (intro "1.IH" [OF True g st]) simp_all
    also have "take (Suc x) (c[x := s ! x]) @ drop (Suc x) s = take x c @ drop x s"
      using True "1.prems"
      by (simp add: take_Suc_conv_app_nth Cons_nth_drop_Suc)
    finally show ?thesis .
  qed
qed

lemma list_all_bits_of: "list_all (\<lambda>v. v = 0 \<or> v = 1) (bits_of n d)"
proof -
  have "v = 0 \<or> v = 1" if "v \<in> set (bits_of n d)" for v
  proof -
    from that obtain k where "v = d div 2 ^ k mod 2" by (auto simp: bits_of_def)
    then show ?thesis by presburger
  qed
  then show ?thesis by (simp add: list_all_iff)
qed

text \<open>Every reachable configuration has \<open>N\<close> cells, each 0 or 1.\<close>

lemma reachable_invariant:
  "reachable up b \<Longrightarrow> length (config b) = N b \<and> list_all (\<lambda>v. v = 0 \<or> v = 1) (config b)"
proof (induction rule: reachable.induct)
  case (construct n b)
  then show ?case by (auto simp: BitString_init_def list_all_iff split: if_splits)
next
  case (flip b i b')
  then show ?case
    by (auto simp: flip_site_def getitem_def setitem_def list_all_update split: if_splits)
next
  case (set_bits b s b')
  then have "set_config b s = Inr (b\<lparr>config := s\<rparr>)"
    using set_config_loop_copies [of 0 "N b" s "config b"] by (simp add: set_config_def)
  with set_bits show ?case by auto
next
  case (from_integer b d b')
  then show ?case using set_int_config_bits [of up b d b'] by simp
qed

text \<open>
  Claim C9: on every configuration reachable through construction, flips, \<open>set_config\<close>
  with a 0/1 sequence of length \<open>N\<close> and \<open>set_int_config\<close> with a value in range, the
  number of 1-bits and the number of 0-bits add up to \<open>N\<close>, whatever the rounding.
\<close>

theorem on_plus_off:
  "reachable up b \<Longrightarrow> on b + off b = N b"
  using reachable_invariant [of up b] on_off_loop [of "config b" 0 0]
  by (simp add: on_def off_def)

text \<open>Claim C9 on the two-bit configuration built by \<open>BitString(2)\<close> and \<open>flip_site(1)\<close>.\<close>

theorem on_plus_off_witness:
  "reachable ieee_up \<lparr>N = 2, config = [0, 1]\<rparr>
   \<and> on \<lparr>N = 2, config = [0, 1]\<rparr> + off \<lparr>N = 2, config = [0, 1]\<rparr> = 2"
proof -
  have "reachable ieee_up \<lparr>N = 2, config = [0, 0]\<rparr>"
    by (rule reachable.construct [of 2]) (simp add: BitString_init_def numeral_2_eq_2)
  moreover have "flip_site \<lparr>N = 2, config = [0, 0]\<rparr> 1 = Inr \<lparr>N = 2, config = [0, 1]\<rparr>"
    by (simp add: flip_site_def getitem_def setitem_def)
  ultimately have r: "reachable ieee_up \<lparr>N = 2, config = [0, 1]\<rparr>"
    by (rule reachable.flip)
  with on_plus_off [OF r] show ?thesis by simp
qed

subsection \<open>Energy\<close>

text \<open>The two loops of \<open>energy\<close> and the dot product, as sums.\<close>

lemma energy_pairs_sum:
  "i < length c \<Longrightarrow> list_all (\<lambda>p. fst p < int (length c)) row \<Longrightarrow>
   energy_pairs c i row e = Inr (e + sum_list (map (pair_term c i) row))"
proof (induction row arbitrary: e)
  case Nil
  show ?case by simp
next
  case (Cons j row)
  show ?case
  proof (cases "fst j < int i")
    case True
    with Cons show ?thesis by (simp add: pair_term_def)
  next
    case False
    then have "getitem c (fst j) = Inr (c ! nat (fst j))"
      using Cons.prems by (simp add: getitem_def)
    with False Cons show ?thesis by (simp add: pair_term_def)
  qed
qed

lemma energy_sites_sum:
  "length (config c) = N c \<Longrightarrow> length (J h) = N c \<Longrightarrow>
   list_all (list_all (\<lambda>p. fst p < int (N c))) (J h) \<Longrightarrow>
   energy_sites h c i e =
     Inr (e + (\<Sum>k = i..<N c. sum_list (map (pair_term (config c) k) (J h ! k))))"
proof (induction h c i e rule: energy_sites.induct)
  case (1 h c i e)
  show ?case
  proof (cases "i < N c")
    case False
    then show ?thesis by (subst energy_sites.simps) simp
  next
    case True
    let ?t = "sum_list (map (pair_term (config c) i) (J h ! i))"
    have g: "getitem (J h) (int i) = Inr (J h ! i)" using True "1.prems" by simp
    have "list_all (\<lambda>p. fst p < int (length (config c))) (J h ! i)"
      using True "1.prems" by (simp add: list_all_length)
    then have p: "energy_pairs (config c) i (J h ! i) e = Inr (e + ?t)"
      using True "1.prems" by (intro energy_pairs_sum) simp_all
    have "energy_sites h c i e = energy_sites h c (Suc i) (e + ?t)"
      using True g p by (subst energy_sites.simps) simp
    also have "\<dots> = Inr (e + ?t + (\<Sum>k = Suc i..<N c. sum_list (map (pair_term (config c) k) (J h ! k))))"
      using "1.prems" by (intro "1.IH" [OF True g p]) simp_all
    finally show ?thesis using True by (simp add: sum.atLeast_Suc_lessThan)
  qed
qed

lemma np_dot_sum:
  "length m = length c \<Longrightarrow>
   np_dot m (map real_of_int (spins c)) =
     Inr (\<Sum>i = 0..<length c. m ! i * real_of_int (2 * c ! i - 1))"
  by (simp add: np_dot_def spins_def sum_list_sum_nth)

lemma energy_closed_form:
  assumes "wf_model h" and "N c = length (config c)" and "length (config c) = length (J h)"
  shows "energy h c = Inr (energy_spec h (config c))"
proof -
  have "list_all (list_all (\<lambda>p. fst p < int (N c))) (J h)"
    using assms by (auto simp: wf_model_def list_all_iff)
  then have "energy_sites h c 0 0
      = Inr (0 + (\<Sum>k = 0..<N c. sum_list (map (pair_term (config c) k) (J h ! k))))"
    using assms by (intro energy_sites_sum) simp_all
  moreover have "np_dot (mu h) (map real_of_int (spins (config c)))
      = Inr (\<Sum>i = 0..<length (config c). mu h ! i * real_of_int (2 * config c ! i - 1))"
    using assms by (intro np_dot_sum) (simp add: wf_model_def)
  ultimately show ?thesis using assms by (simp add: energy_def energy_spec_def)
qed


lemma energy_spec_chain:
  "energy_spec (IsingHamiltonian_init [[(1, 1)], [(2, 1)], []] [6 / 5, 0, 0]) [0, 1, 0] = - (16 / 5)"
  by code_simp

text \<open>
  Claim C1: for a model with \<open>N\<close> sites (one field value per site, neighbour indices in
  \<open>0 .. N - 1\<close>) and a configuration of length \<open>N\<close>, \<open>energy\<close> returns the sum over every
  site \<open>i\<close> and every coupling \<open>(j, s)\<close> of site \<open>i\<close> of \<open>+s\<close> for equal bits, \<open>-s\<close> for
  different bits and nothing when \<open>j < i\<close>, plus the sum over the sites of
  \<open>mu_i * (2 * bit_i - 1)\<close>. The bits need not be 0 or 1 for this.
\<close>

theorem energy_is_energy_spec:
  assumes "wf_model h" and "N c = length (config c)" and "length (config c) = N_ham h"
  shows "energy h c = Inr (energy_spec h (config c))"
  using assms energy_closed_form [of h c] by (simp add: wf_model_def)

text \<open>
  Claim C1 on the chain of three sites of the repository's test, field 1.2 on site 0,
  at the bits 0, 1, 0: the energy is \<open>-3.2\<close>.
\<close>

theorem energy_is_energy_spec_witness:
  "wf_model (IsingHamiltonian_init [[(1, 1)], [(2, 1)], []] [6 / 5, 0, 0])
   \<and> energy (IsingHamiltonian_init [[(1, 1)], [(2, 1)], []] [6 / 5, 0, 0])
        \<lparr>N = 3, config = [0, 1, 0]\<rparr> = Inr (- (16 / 5))"
proof -
  let ?h = "IsingHamiltonian_init [[(1, 1)], [(2, 1)], []] [6 / 5, 0, 0]"
  let ?c = "\<lparr>N = 3, config = [0, 1, 0]\<rparr>"
  have wf: "wf_model ?h"
    by (simp add: wf_model_def IsingHamiltonian_init_def)
  have n: "N ?c = length (config ?c)" by simp
  have l: "length (config ?c) = N_ham ?h"
    by (simp add: IsingHamiltonian_init_def)
  show ?thesis
    using energy_is_energy_spec [OF wf n l] wf by (simp add: energy_spec_chain)
qed

text \<open>
  The dimension test on any mismatch: the call ends in the NameError of the undefined
  \<open>error\<close>, before any term is computed.
\<close>

lemma energy_dimension_test:
  "length (config c) \<noteq> length (J h) \<Longrightarrow> energy h c = Inl NameError"
  by (simp add: energy_def)

text \<open>
  Claim C8 asks for a dimension-mismatch error when the configuration's length differs
  from the number of sites. The guard is there and tries to report \<open>wrong dimension\<close>, but
  through a name the module never defines: on the three-site chain and a two-bit
  configuration the call ends in NameError, the interpreter's error for the unknown
  name, and not in an error of the dimension.
\<close>

theorem energy_wrong_dimension_raises_NameError:
  "energy (IsingHamiltonian_init [[(1, 1)], [(2, 1)], []] [6 / 5, 0, 0])
     \<lparr>N = 2, config = [0, 0]\<rparr> = Inl NameError"
  by code_simp

subsection \<open>Thermal averages\<close>

text \<open>
  One iteration of either enumeration: decoding index \<open>i\<close> succeeds and the energy of the
  decoded configuration is \<open>E_at h i\<close>.
\<close>

lemma sum_list_spins:
  "real_of_int (sum_list (spins c)) = real_of_int (\<Sum>x = 0..<length c. 2 * c ! x - 1)"
  by (simp add: spins_def sum_list_sum_nth)

lemma int_less_pow2: "i < 2 ^ n \<Longrightarrow> int i < 2 ^ n"
  by (metis of_nat_less_iff of_nat_numeral of_nat_power)

lemma step_at:
  assumes "wf_model h" and "N conf = N_ham h" and "i < 2 ^ N_ham h"
    and "no_rounding up (N_ham h) (int i)"
  shows "set_int_config up conf (int i) = Inr (conf\<lparr>config := bits_of (N_ham h) (int i)\<rparr>)"
    and "energy h (conf\<lparr>config := bits_of (N_ham h) (int i)\<rparr>) = Inr (E_at h i)"
proof -
  have "int i < 2 ^ N conf" using assms by (simp add: int_less_pow2)
  then show "set_int_config up conf (int i) = Inr (conf\<lparr>config := bits_of (N_ham h) (int i)\<rparr>)"
    using set_int_config_digits [of "int i" conf up] assms(2,4) by simp
  show "energy h (conf\<lparr>config := bits_of (N_ham h) (int i)\<rparr>) = Inr (E_at h i)"
    using assms energy_closed_form [of h "conf\<lparr>config := bits_of (N_ham h) (int i)\<rparr>"]
    by (simp add: E_at_def wf_model_def)
qed

text \<open>The accumulation loop, as long as no index is decoded with a rounded-up test.\<close>

lemma cav_loop_sums:
  assumes "wf_model h" and "N conf = N_ham h" and "n \<le> 2 ^ N_ham h"
    and "no_rounding up (N_ham h) (int n - 1)"
  shows "cav_loop up h T conf i n (E, M, Z, EE, MM) =
     Inr (E + (\<Sum>k = i..<n. E_at h k * Z_at h T k),
          M + (\<Sum>k = i..<n. M_at h k * Z_at h T k),
          Z + (\<Sum>k = i..<n. Z_at h T k),
          EE + (\<Sum>k = i..<n. E_at h k * E_at h k * Z_at h T k),
          MM + (\<Sum>k = i..<n. M_at h k * M_at h k * Z_at h T k))"
  using assms
proof (induction "n - i" arbitrary: i conf E M Z EE MM)
  case 0
  then show ?case by (subst cav_loop.simps) simp
next
  case (Suc m)
  then have lt: "i < n" and m: "m = n - Suc i" by simp_all
  let ?c = "conf\<lparr>config := bits_of (N_ham h) (int i)\<rparr>"
  have i2: "i < 2 ^ N_ham h" using lt Suc.prems by simp
  have nr: "no_rounding up (N_ham h) (int i)"
    using Suc.prems(4) by (rule no_rounding_mono) (use lt in simp)
  have s: "set_int_config up conf (int i) = Inr ?c"
    and e: "energy h ?c = Inr (E_at h i)"
    using step_at [OF Suc.prems(1,2) i2 nr] by simp_all
  have mi: "real_of_int (sum_list (spins (config ?c))) = M_at h i"
    by (simp add: sum_list_spins M_at_def)
  have zi: "exp (- E_at h i / T) = Z_at h T i"
    by (simp add: Z_at_def)
  have unfold: "cav_loop up h T conf i n (E, M, Z, EE, MM) =
      cav_loop up h T ?c (Suc i) n
        (E + E_at h i * Z_at h T i, M + M_at h i * Z_at h T i, Z + Z_at h T i,
         EE + E_at h i * E_at h i * Z_at h T i, MM + M_at h i * M_at h i * Z_at h T i)"
    using lt s e mi zi by (subst cav_loop.simps) (simp add: Let_def)
  have "N ?c = N_ham h" using Suc.prems by simp
  from Suc.hyps(1) [OF m Suc.prems(1) this Suc.prems(3,4)]
  show ?case
    unfolding unfold using lt by (simp add: sum.atLeast_Suc_lessThan add.assoc)
qed

lemma Z_sum_pos: "0 < Z_sum h T"
  unfolding Z_sum_def by (rule sum_pos) (simp_all add: Z_at_def)

lemma compute_average_values_closed_form:
  assumes "wf_model h" and "no_rounding up (N_ham h) (2 ^ N_ham h - 1)"
  shows "compute_average_values up h T =
     Inr (E_unnorm h T / Z_sum h T,
          M_unnorm h T / Z_sum h T,
          (EE_unnorm h T / Z_sum h T - (E_unnorm h T / Z_sum h T) * (E_unnorm h T / Z_sum h T)) / (T * T),
          (MM_unnorm h T / Z_sum h T - (M_unnorm h T / Z_sum h T) * (M_unnorm h T / Z_sum h T)) / T)"
proof -
  let ?conf = "\<lparr>N = N_ham h, config = replicate (N_ham h) 0\<rparr>"
  have init: "BitString_init (int (N_ham h)) = Inr ?conf"
    by (simp add: BitString_init_def)
  have nr: "no_rounding up (N_ham h) (int (2 ^ N_ham h) - 1)"
    using assms(2) by simp
  have "cav_loop up h T ?conf 0 (2 ^ N_ham h) (0, 0, 0, 0, 0) =
      Inr (E_unnorm h T, M_unnorm h T, Z_sum h T, EE_unnorm h T, MM_unnorm h T)"
    using cav_loop_sums [OF assms(1) _ _ nr, of ?conf T 0 0 0 0 0 0]
    by (simp add: E_unnorm_def M_unnorm_def Z_sum_def EE_unnorm_def MM_unnorm_def)
  with init show ?thesis
    by (simp add: compute_average_values_def Let_def)
qed

text \<open>
  Where no index is decoded with a rounded-up test, \<open>compute_average_values\<close> returns
  \<open>(E, M, HC, MS)\<close> with \<open>E = E_unnorm / Z\<close>, \<open>M = M_unnorm / Z\<close>,
  \<open>HC = (EE / Z - E\<^sup>2) / T\<^sup>2\<close> and \<open>MS = (MM / Z - M\<^sup>2) / T\<close>, where \<open>Z\<close> is the sum of the
  weights \<open>exp (- E_i / T)\<close> over the indices \<open>0 .. 2 ^ N - 1\<close> and is positive.
\<close>

lemma compute_average_values_formulas_unrounded:
  assumes "wf_model h" and "0 < T" and "no_rounding up (N_ham h) (2 ^ N_ham h - 1)"
  shows "0 < Z_sum h T \<and>
     compute_average_values up h T =
       Inr (E_unnorm h T / Z_sum h T,
            M_unnorm h T / Z_sum h T,
            (EE_unnorm h T / Z_sum h T - (E_unnorm h T / Z_sum h T)\<^sup>2) / T\<^sup>2,
            (MM_unnorm h T / Z_sum h T - (M_unnorm h T / Z_sum h T)\<^sup>2) / T)"
  using compute_average_values_closed_form [OF assms(1,3), of T] Z_sum_pos [of h T]
  by (simp add: power2_eq_square)

text \<open>With IEEE doubles this covers every model of at most 49 sites.\<close>

lemma compute_average_values_formulas_ieee:
  assumes "wf_model h" and "0 < T" and "N_ham h \<le> 49"
  shows "0 < Z_sum h T \<and>
     compute_average_values ieee_up h T =
       Inr (E_unnorm h T / Z_sum h T,
            M_unnorm h T / Z_sum h T,
            (EE_unnorm h T / Z_sum h T - (E_unnorm h T / Z_sum h T)\<^sup>2) / T\<^sup>2,
            (MM_unnorm h T / Z_sum h T - (M_unnorm h T / Z_sum h T)\<^sup>2) / T)"
  using assms(1,2) no_rounding_ieee [OF assms(3)]
  by (rule compute_average_values_formulas_unrounded)

text \<open>
  One site with field 1 at temperature 2: the energies are \<open>-1\<close> and \<open>1\<close>, the net spins
  \<open>-1\<close> and \<open>1\<close>, the weights \<open>exp (1 / 2)\<close> and \<open>exp (- 1 / 2)\<close>.
\<close>

lemma E_at_one_site_0: "E_at (IsingHamiltonian_init [[]] [1]) 0 = - 1"
  by code_simp

lemma E_at_one_site_1: "E_at (IsingHamiltonian_init [[]] [1]) (Suc 0) = 1"
  by code_simp

lemma M_at_one_site_0: "M_at (IsingHamiltonian_init [[]] [1]) 0 = - 1"
  by code_simp

lemma M_at_one_site_1: "M_at (IsingHamiltonian_init [[]] [1]) (Suc 0) = 1"
  by code_simp

lemma N_ham_one_site: "N_ham (IsingHamiltonian_init [[]] [1]) = 1"
  by (simp add: IsingHamiltonian_init_def)

lemma range_one_site: "{0..<2 ^ N_ham (IsingHamiltonian_init [[]] [1])} = {0, Suc 0}"
  by (auto simp: N_ham_one_site)

lemma compute_average_values_one_site:
  "compute_average_values ieee_up (IsingHamiltonian_init [[]] [1]) 2 =
     Inr ((exp (- (1 / 2)) - exp (1 / 2)) / (exp (1 / 2) + exp (- (1 / 2))),
          (exp (- (1 / 2)) - exp (1 / 2)) / (exp (1 / 2) + exp (- (1 / 2))),
          (1 - ((exp (- (1 / 2)) - exp (1 / 2)) / (exp (1 / 2) + exp (- (1 / 2))))\<^sup>2) / 4,
          (1 - ((exp (- (1 / 2)) - exp (1 / 2)) / (exp (1 / 2) + exp (- (1 / 2))))\<^sup>2) / 2)"
proof -
  let ?h = "IsingHamiltonian_init [[]] [1]"
  define z :: real where "z = exp (1 / 2) + exp (- (1 / 2))"
  have zpos: "0 < z" by (simp add: z_def add_pos_pos)
  have wf: "wf_model ?h" by (simp add: wf_model_def IsingHamiltonian_init_def)
  have nr: "no_rounding ieee_up (N_ham ?h) (2 ^ N_ham ?h - 1)"
    by (rule no_rounding_ieee) (simp add: N_ham_one_site)
  have Z: "Z_sum ?h 2 = z"
    by (simp add: Z_sum_def range_one_site Z_at_def E_at_one_site_0 E_at_one_site_1 z_def)
  have E: "E_unnorm ?h 2 = exp (- (1 / 2)) - exp (1 / 2)"
    by (simp add: E_unnorm_def range_one_site Z_at_def E_at_one_site_0 E_at_one_site_1)
  have EE: "EE_unnorm ?h 2 = z"
    by (simp add: EE_unnorm_def range_one_site Z_at_def E_at_one_site_0 E_at_one_site_1 z_def)
  have M: "M_unnorm ?h 2 = exp (- (1 / 2)) - exp (1 / 2)"
    by (simp add: M_unnorm_def range_one_site Z_at_def E_at_one_site_0 E_at_one_site_1
          M_at_one_site_0 M_at_one_site_1)
  have MM: "MM_unnorm ?h 2 = z"
    by (simp add: MM_unnorm_def range_one_site Z_at_def E_at_one_site_0 E_at_one_site_1
          M_at_one_site_0 M_at_one_site_1 z_def)
  have "compute_average_values ieee_up ?h 2 =
      Inr ((exp (- (1 / 2)) - exp (1 / 2)) / z, (exp (- (1 / 2)) - exp (1 / 2)) / z,
           (z / z - ((exp (- (1 / 2)) - exp (1 / 2)) / z)\<^sup>2) / 2\<^sup>2,
           (z / z - ((exp (- (1 / 2)) - exp (1 / 2)) / z)\<^sup>2) / 2)"
    using compute_average_values_formulas_unrounded [OF wf _ nr, of 2]
    by (simp only: Z E EE M MM)
  moreover have "z / z = 1" using zpos by simp
  ultimately show ?thesis by (simp add: z_def)
qed

text \<open>
  The accumulation loop when the decoding of an index \<open>f\<close> raises and the indices before
  it are decoded exactly: the loop ends in that exception.
\<close>

lemma cav_loop_raises:
  assumes "wf_model h" and "N conf = N_ham h" and "f < n" and "f < 2 ^ N_ham h"
    and "no_rounding up (N_ham h) (int f - 1)" and "i \<le> f"
    and "\<And>c. N c = N_ham h \<Longrightarrow> set_int_config up c (int f) = Inl e"
  shows "cav_loop up h T conf i n (E, M, Z, EE, MM) = Inl e"
  using assms(2,6)
proof (induction "f - i" arbitrary: i conf E M Z EE MM)
  case 0
  then have "i = f" by simp
  then show ?case
    using assms(3) assms(7) [OF "0.prems"(1)] by (subst cav_loop.simps) simp
next
  case (Suc m)
  then have lt: "i < f" and m: "m = f - Suc i" by simp_all
  let ?c = "conf\<lparr>config := bits_of (N_ham h) (int i)\<rparr>"
  have i2: "i < 2 ^ N_ham h" using lt assms(4) by simp
  have nr: "no_rounding up (N_ham h) (int i)"
    using assms(5) by (rule no_rounding_mono) (use lt in simp)
  have s: "set_int_config up conf (int i) = Inr ?c"
    and e: "energy h ?c = Inr (E_at h i)"
    using step_at [OF assms(1) Suc.prems(1) i2 nr] by simp_all
  have "cav_loop up h T conf i n (E, M, Z, EE, MM) =
      cav_loop up h T ?c (Suc i) n
        (E + E_at h i * exp (- E_at h i / T),
         M + real_of_int (sum_list (spins (config ?c))) * exp (- E_at h i / T),
         Z + exp (- E_at h i / T),
         EE + E_at h i * E_at h i * exp (- E_at h i / T),
         MM + real_of_int (sum_list (spins (config ?c))) * real_of_int (sum_list (spins (config ?c)))
              * exp (- E_at h i / T))"
    using lt assms(3) s e by (subst cav_loop.simps) (simp add: Let_def)
  also have "\<dots> = Inl e"
    by (rule Suc.hyps(1) [OF m]) (use Suc.prems lt in simp_all)
  finally show ?case .
qed

text \<open>
  Claim C3 (a tuple is returned for every model and every positive temperature) is what
  the enumeration is written for, and the source misses it through the same rounded
  logarithm as for claim C4: on a model with \<open>k + 1\<close> sites, when the library rounds the
  logarithm of \<open>2 ^ k - 1\<close> up to \<open>k\<close> and no smaller value is rounded up, the indices below
  \<open>2 ^ k - 1\<close> are decoded and accumulated, and the decoding of index \<open>2 ^ k - 1\<close> raises
  ValueError; no tuple is returned. With IEEE doubles this is so for \<open>k = 49\<close>.
\<close>

theorem compute_average_values_raises:
  assumes "wf_model h" and "N_ham h = Suc k" and "0 < k" and "up (2 ^ k - 1) k"
    and "no_rounding up (Suc k) (2 ^ k - 2)"
  shows "compute_average_values up h T = Inl ValueError"
proof -
  let ?conf = "\<lparr>N = N_ham h, config = replicate (N_ham h) 0\<rparr>"
  let ?f = "2 ^ k - 1 :: nat"
  have init: "BitString_init (int (N_ham h)) = Inr ?conf"
    by (simp add: BitString_init_def)
  have f: "int ?f = 2 ^ k - 1"
    by (simp add: of_nat_diff)
  have raises: "set_int_config up c (int ?f) = Inl ValueError" if "N c = N_ham h" for c
    unfolding f using set_int_config_rounded_up [of k up c] assms(2,3,4) that by simp
  have "cav_loop up h T ?conf 0 (2 ^ N_ham h) (0, 0, 0, 0, 0) = Inl ValueError"
  proof (rule cav_loop_raises [OF assms(1) _ _ _ _ _ raises])
    show "N ?conf = N_ham h" by simp
    show "?f < 2 ^ N_ham h" "?f < 2 ^ N_ham h"
      using assms(2) by (simp_all add: less_imp_diff_less)
    show "no_rounding up (N_ham h) (int ?f - 1)"
      using assms(2,5) unfolding f by simp
    show "0 \<le> ?f" by simp
  qed
  with init show ?thesis
    by (simp add: compute_average_values_def)
qed

text \<open>
  Claim C3 on fifty sites without coupling or field, with the rounding of IEEE doubles:
  the call ends at index \<open>2 ^ 49 - 1\<close>.
\<close>

theorem compute_average_values_raises_witness:
  "wf_model (IsingHamiltonian_init (replicate 50 []) (replicate 50 0))
   \<and> N_ham (IsingHamiltonian_init (replicate 50 []) (replicate 50 0)) = Suc 49
   \<and> (0::nat) < 49 \<and> ieee_up (2 ^ 49 - 1) 49 \<and> no_rounding ieee_up (Suc 49) (2 ^ 49 - 2)
   \<and> compute_average_values ieee_up (IsingHamiltonian_init (replicate 50 []) (replicate 50 0)) 1
       = Inl ValueError"
proof -
  let ?h = "IsingHamiltonian_init (replicate 50 []) (replicate 50 0)"
  have wf: "wf_model ?h"
    by (simp add: wf_model_def IsingHamiltonian_init_def list_all_iff)
  have n: "N_ham ?h = Suc 49" by (simp add: IsingHamiltonian_init_def)
  have r: "ieee_up (2 ^ 49 - 1) 49" by (rule ieee_up_49)
  have nr: "no_rounding ieee_up (Suc 49) (2 ^ 49 - 2)"
    using no_rounding_ieee_50 [of "2 ^ 49 - 2"] by simp
  show ?thesis
    using compute_average_values_raises [OF wf n _ r nr, of 1] wf n r nr by simp
qed

subsection \<open>Ground state search\<close>

text \<open>
  What the loop leaves behind after the indices \<open>i .. n - 1\<close>: the energy it holds is
  below every energy it has seen, and either nothing changed or the recorded index is the
  first one that attains that energy, which is strictly below the energy it started with.
\<close>

lemma gle_loop_scan:
  assumes "wf_model h" and "N bs = N_ham h" and "n \<le> 2 ^ N_ham h"
    and "no_rounding up (N_ham h) (int n - 1)"
  shows "\<exists>bs' emin' xmin'.
     gle_loop up h bs i n emin xmin = Inr (bs', emin', xmin') \<and> N bs' = N_ham h \<and>
     (\<forall>k. i \<le> k \<and> k < n \<longrightarrow> emin' \<le> E_at h k) \<and>
     ((emin' = emin \<and> xmin' = xmin) \<or>
      (\<exists>j. i \<le> j \<and> j < n \<and> xmin' = Some (int j) \<and> E_at h j = emin' \<and> emin' < emin \<and>
           (\<forall>k. i \<le> k \<and> k < j \<longrightarrow> emin' < E_at h k)))"
  using assms
proof (induction "n - i" arbitrary: i bs emin xmin)
  case 0
  then show ?case by (subst gle_loop.simps) simp
next
  case (Suc m)
  then have lt: "i < n" and m: "m = n - Suc i" by simp_all
  let ?c = "bs\<lparr>config := bits_of (N_ham h) (int i)\<rparr>"
  have i2: "i < 2 ^ N_ham h" using lt Suc.prems by simp
  have nr: "no_rounding up (N_ham h) (int i)"
    using Suc.prems(4) by (rule no_rounding_mono) (use lt in simp)
  have s: "set_int_config up bs (int i) = Inr ?c"
    and e: "energy h ?c = Inr (E_at h i)"
    using step_at [OF Suc.prems(1,2) i2 nr] by simp_all
  have Nc: "N ?c = N_ham h" using Suc.prems by simp
  show ?case
  proof (cases "E_at h i < emin")
    case True
    have unfold: "gle_loop up h bs i n emin xmin = gle_loop up h ?c (Suc i) n (E_at h i) (Some (int i))"
      using lt s e True by (subst gle_loop.simps) simp
    from Suc.hyps(1) [OF m Suc.prems(1) Nc Suc.prems(3,4), of "E_at h i" "Some (int i)"]
    obtain bs' emin' xmin' where r:
      "gle_loop up h ?c (Suc i) n (E_at h i) (Some (int i)) = Inr (bs', emin', xmin')"
      "N bs' = N_ham h"
      "\<forall>k. Suc i \<le> k \<and> k < n \<longrightarrow> emin' \<le> E_at h k"
      "(emin' = E_at h i \<and> xmin' = Some (int i)) \<or>
       (\<exists>j. Suc i \<le> j \<and> j < n \<and> xmin' = Some (int j) \<and> E_at h j = emin' \<and> emin' < E_at h i \<and>
            (\<forall>k. Suc i \<le> k \<and> k < j \<longrightarrow> emin' < E_at h k))"
      by blast
    have le: "emin' \<le> E_at h i" using r(4) by auto
    have all: "\<forall>k. i \<le> k \<and> k < n \<longrightarrow> emin' \<le> E_at h k"
    proof (intro allI impI)
      fix k assume "i \<le> k \<and> k < n"
      then consider "k = i" | "Suc i \<le> k \<and> k < n" by linarith
      then show "emin' \<le> E_at h k" using le r(3) by cases auto
    qed
    have "\<exists>j. i \<le> j \<and> j < n \<and> xmin' = Some (int j) \<and> E_at h j = emin' \<and> emin' < emin \<and>
           (\<forall>k. i \<le> k \<and> k < j \<longrightarrow> emin' < E_at h k)"
      using r(4)
    proof
      assume "emin' = E_at h i \<and> xmin' = Some (int i)"
      then show ?thesis using lt True by (intro exI [of _ i]) simp
    next
      assume "\<exists>j. Suc i \<le> j \<and> j < n \<and> xmin' = Some (int j) \<and> E_at h j = emin' \<and>
                emin' < E_at h i \<and> (\<forall>k. Suc i \<le> k \<and> k < j \<longrightarrow> emin' < E_at h k)"
      then obtain j where j: "Suc i \<le> j" "j < n" "xmin' = Some (int j)" "E_at h j = emin'"
        "emin' < E_at h i" "\<forall>k. Suc i \<le> k \<and> k < j \<longrightarrow> emin' < E_at h k"
        by blast
      have "\<forall>k. i \<le> k \<and> k < j \<longrightarrow> emin' < E_at h k"
      proof (intro allI impI)
        fix k assume "i \<le> k \<and> k < j"
        then consider "k = i" | "Suc i \<le> k \<and> k < j" by linarith
        then show "emin' < E_at h k" using j(5,6) by cases auto
      qed
      moreover have "emin' < emin" using j(5) True by linarith
      moreover have "i \<le> j" using j(1) by simp
      ultimately show ?thesis using j(2,3,4) by blast
    qed
    with r(1,2) all unfold show ?thesis by simp
  next
    case False
    have unfold: "gle_loop up h bs i n emin xmin = gle_loop up h ?c (Suc i) n emin xmin"
      using lt s e False by (subst gle_loop.simps) simp
    from Suc.hyps(1) [OF m Suc.prems(1) Nc Suc.prems(3,4), of emin xmin]
    obtain bs' emin' xmin' where r:
      "gle_loop up h ?c (Suc i) n emin xmin = Inr (bs', emin', xmin')"
      "N bs' = N_ham h"
      "\<forall>k. Suc i \<le> k \<and> k < n \<longrightarrow> emin' \<le> E_at h k"
      "(emin' = emin \<and> xmin' = xmin) \<or>
       (\<exists>j. Suc i \<le> j \<and> j < n \<and> xmin' = Some (int j) \<and> E_at h j = emin' \<and> emin' < emin \<and>
            (\<forall>k. Suc i \<le> k \<and> k < j \<longrightarrow> emin' < E_at h k))"
      by blast
    have le: "emin' \<le> emin" using r(4) by auto
    have all: "\<forall>k. i \<le> k \<and> k < n \<longrightarrow> emin' \<le> E_at h k"
    proof (intro allI impI)
      fix k assume "i \<le> k \<and> k < n"
      then consider "k = i" | "Suc i \<le> k \<and> k < n" by linarith
      then show "emin' \<le> E_at h k" using le False r(3) by cases auto
    qed
    have "(emin' = emin \<and> xmin' = xmin) \<or>
       (\<exists>j. i \<le> j \<and> j < n \<and> xmin' = Some (int j) \<and> E_at h j = emin' \<and> emin' < emin \<and>
            (\<forall>k. i \<le> k \<and> k < j \<longrightarrow> emin' < E_at h k))"
      using r(4)
    proof
      assume "emin' = emin \<and> xmin' = xmin"
      then show ?thesis by simp
    next
      assume "\<exists>j. Suc i \<le> j \<and> j < n \<and> xmin' = Some (int j) \<and> E_at h j = emin' \<and>
                emin' < emin \<and> (\<forall>k. Suc i \<le> k \<and> k < j \<longrightarrow> emin' < E_at h k)"
      then obtain j where j: "Suc i \<le> j" "j < n" "xmin' = Some (int j)" "E_at h j = emin'"
        "emin' < emin" "\<forall>k. Suc i \<le> k \<and> k < j \<longrightarrow> emin' < E_at h k"
        by blast
      have "\<forall>k. i \<le> k \<and> k < j \<longrightarrow> emin' < E_at h k"
      proof (intro allI impI)
        fix k assume "i \<le> k \<and> k < j"
        then consider "k = i" | "Suc i \<le> k \<and> k < j" by linarith
        then show "emin' < E_at h k" using j(5,6) False by cases auto
      qed
      moreover have "i \<le> j" using j(1) by simp
      ultimately have "\<exists>j. i \<le> j \<and> j < n \<and> xmin' = Some (int j) \<and> E_at h j = emin' \<and> emin' < emin \<and>
            (\<forall>k. i \<le> k \<and> k < j \<longrightarrow> emin' < E_at h k)"
        using j(2,3,4,5) by blast
      then show ?thesis ..
    qed
    with r(1,2) all unfold show ?thesis by simp
  qed
qed

lemma np_power_2_small: "n \<le> 62 \<Longrightarrow> nat (np_power_2 n) = 2 ^ n"
proof -
  assume "n \<le> 62"
  then have lt: "(2::int) ^ n < 2 ^ 63"
    by (intro power_strict_increasing) simp_all
  then have "(2::int) ^ n mod 2 ^ 64 = 2 ^ n"
    by (intro mod_pos_pos_trivial) simp_all
  with lt show ?thesis by (simp add: np_power_2_def Let_def nat_power_eq)
qed

text \<open>
  The two outcomes for a model with at least one site, as long as \<open>np.power\<close> does not
  wrap and no index is decoded with a rounded-up test: index 0 already has the least
  energy and the call raises TypeError, or some energy is strictly below that of index 0
  and the call returns the least energy with the bits of the first index attaining it.
\<close>

lemma get_lowest_energy_config_cases:
  assumes "wf_model h" and "0 < N_ham h" and "N_ham h \<le> 62"
    and "no_rounding up (N_ham h) (2 ^ N_ham h - 1)"
  shows "((\<forall>k<2 ^ N_ham h. E_at h 0 \<le> E_at h k) \<and>
            get_lowest_energy_config up h = Inl TypeError) \<or>
         (\<exists>j<2 ^ N_ham h. E_at h j < E_at h 0 \<and> (\<forall>k<2 ^ N_ham h. E_at h j \<le> E_at h k) \<and>
              (\<forall>k<j. E_at h j < E_at h k) \<and>
              get_lowest_energy_config up h = Inr (E_at h j, bits_of (N_ham h) (int j)))"
proof -
  let ?my = "\<lparr>N = N_ham h, config = replicate (N_ham h) 0\<rparr>"
  let ?bs0 = "?my\<lparr>config := bits_of (N_ham h) (int 0)\<rparr>"
  have init: "BitString_init (int (N_ham h)) = Inr ?my"
    by (simp add: BitString_init_def)
  have bound: "nat (np_power_2 (N ?bs0)) = 2 ^ N_ham h"
    using assms(3) by (simp add: np_power_2_small)
  have z: "(0::nat) < 2 ^ N_ham h" by simp
  have nr: "no_rounding up (N_ham h) (int (2 ^ N_ham h) - 1)"
    using assms(4) by simp
  have nr0: "no_rounding up (N_ham h) (int 0)"
    using assms(4) by (rule no_rounding_mono) simp
  have s0: "set_int_config up ?my 0 = Inr ?bs0" and e0: "energy h ?bs0 = Inr (E_at h 0)"
    using step_at [OF assms(1) _ z nr0, of ?my] by simp_all
  obtain bs' emin' xmin' where r:
    "gle_loop up h ?bs0 0 (2 ^ N_ham h) (E_at h 0) None = Inr (bs', emin', xmin')"
    "N bs' = N_ham h"
    "\<forall>k. 0 \<le> k \<and> k < 2 ^ N_ham h \<longrightarrow> emin' \<le> E_at h k"
    "(emin' = E_at h 0 \<and> xmin' = None) \<or>
     (\<exists>j. 0 \<le> j \<and> j < 2 ^ N_ham h \<and> xmin' = Some (int j) \<and> E_at h j = emin' \<and>
          emin' < E_at h 0 \<and> (\<forall>k. 0 \<le> k \<and> k < j \<longrightarrow> emin' < E_at h k))"
    using gle_loop_scan [OF assms(1) _ _ nr, of ?bs0 0 "E_at h 0" None] by auto
  from r(4) show ?thesis
  proof
    assume a: "emin' = E_at h 0 \<and> xmin' = None"
    have "set_int_config_None bs' = Inl TypeError"
      using r(2) assms(2) by (simp add: set_int_config_None_def BitString_init_def)
    then have "get_lowest_energy_config up h = Inl TypeError"
      using init s0 e0 r(1) a bound by (simp add: get_lowest_energy_config_def nat_power_eq)
    moreover have "\<forall>k<2 ^ N_ham h. E_at h 0 \<le> E_at h k" using r(3) a by simp
    ultimately show ?thesis by blast
  next
    assume "\<exists>j. 0 \<le> j \<and> j < 2 ^ N_ham h \<and> xmin' = Some (int j) \<and> E_at h j = emin' \<and>
          emin' < E_at h 0 \<and> (\<forall>k. 0 \<le> k \<and> k < j \<longrightarrow> emin' < E_at h k)"
    then obtain j where j: "j < 2 ^ N_ham h" "xmin' = Some (int j)" "E_at h j = emin'"
      "emin' < E_at h 0" "\<forall>k<j. emin' < E_at h k" by auto
    have nrj: "no_rounding up (N_ham h) (int j)"
      using nr by (rule no_rounding_mono) (use j(1) in simp)
    have "set_int_config up bs' (int j) = Inr (bs'\<lparr>config := bits_of (N_ham h) (int j)\<rparr>)"
      using step_at(1) [OF assms(1) r(2) j(1) nrj] .
    then have "get_lowest_energy_config up h = Inr (E_at h j, bits_of (N_ham h) (int j))"
      using init s0 e0 r(1) j(2,3) bound by (simp add: get_lowest_energy_config_def nat_power_eq)
    moreover have "\<forall>k<2 ^ N_ham h. E_at h j \<le> E_at h k" using r(3) j(3) by simp
    ultimately show ?thesis using j by blast
  qed
qed

text \<open>The repository's test: a chain of three sites, field 1.2 on site 0.\<close>

lemma get_lowest_energy_config_chain:
  "get_lowest_energy_config ieee_up (IsingHamiltonian_init [[(1, 1)], [(2, 1)], []] [6 / 5, 0, 0])
     = Inr (- (16 / 5), [0, 1, 0])"
  by code_simp

text \<open>
  Claim C2 says that a result is returned also when index 0 already has the least
  energy. The source does not: on one site with field 1 the energies are \<open>-1\<close> at index 0
  and \<open>1\<close> at index 1, \<open>xmin\<close> is still \<open>None\<close> after the loop, and the final
  \<open>set_int_config(xmin)\<close> raises TypeError, whatever the rounding.
\<close>

theorem get_lowest_energy_config_index_0_minimum:
  "get_lowest_energy_config up (IsingHamiltonian_init [[]] [1]) = Inl TypeError"
  by code_simp

end
